theory Spec2Isabelle
  imports Main
begin

section \<open>JavaScript strings\<close>

text \<open>
  A JavaScript string is modelled as a \<^typ>\<open>string\<close>, a list of code units; the code units
  are those of HOL's \<^typ>\<open>char\<close> (0 to 255). The helpers below follow the semantics of
  \<^verbatim>\<open>String.prototype.split\<close>, \<^verbatim>\<open>Array.prototype.join\<close>, \<^verbatim>\<open>trim\<close> and \<^verbatim>\<open>slice\<close>.
\<close>

definition newline :: char where
  "newline = CHR 0x0A"

text \<open>White space and line terminators, as \<^verbatim>\<open>\s\<close> and \<^verbatim>\<open>trim()\<close> see them.\<close>

definition js_space :: "char \<Rightarrow> bool" where
  "js_space c = (c \<in> {CHR 0x09, CHR 0x0A, CHR 0x0B, CHR 0x0C, CHR 0x0D, CHR 0x20, CHR 0xA0})"

text \<open>The line terminators that \<^verbatim>\<open>.\<close> does not match.\<close>

definition js_line_terminator :: "char \<Rightarrow> bool" where
  "js_line_terminator c = (c = CHR 0x0A \<or> c = CHR 0x0D)"

text \<open>The class \<^verbatim>\<open>\w\<close>.\<close>

definition js_word :: "char \<Rightarrow> bool" where
  "js_word c = (let n = (of_char c :: nat) in
     (48 \<le> n \<and> n \<le> 57) \<or> (65 \<le> n \<and> n \<le> 90) \<or> (97 \<le> n \<and> n \<le> 122) \<or> n = 95)"

definition js_trim :: "string \<Rightarrow> string" where
  "js_trim s = rev (dropWhile js_space (rev (dropWhile js_space s)))"

text \<open>\<^verbatim>\<open>s.split('\n')\<close>: always at least one piece.\<close>

fun split_newline :: "string \<Rightarrow> string list" where
  "split_newline [] = [[]]"
| "split_newline (c # cs) =
     (if c = newline then [] # split_newline cs
      else (case split_newline cs of
              [] \<Rightarrow> [[c]]
            | l # ls \<Rightarrow> (c # l) # ls))"

text \<open>\<^verbatim>\<open>xs.join(sep)\<close>.\<close>

fun js_join :: "string \<Rightarrow> string list \<Rightarrow> string" where
  "js_join sep [] = []"
| "js_join sep [x] = x"
| "js_join sep (x # y # ys) = x @ sep @ js_join sep (y # ys)"

definition starts_with :: "string \<Rightarrow> string \<Rightarrow> bool" where
  "starts_with p s = (take (length p) s = p)"

text \<open>\<^verbatim>\<open>s.split(sep)\<close> for a string separator; an empty separator splits into code units.\<close>

fun split_at :: "string \<Rightarrow> string \<Rightarrow> string \<Rightarrow> string list" where
  "split_at sep acc [] = [rev acc]"
| "split_at sep acc (c # cs) =
     (if sep \<noteq> [] \<and> starts_with sep (c # cs)
      then rev acc # split_at sep [] (drop (length sep - 1) cs)
      else split_at sep (c # acc) cs)"

definition js_split :: "string \<Rightarrow> string \<Rightarrow> string list" where
  "js_split sep s = (if sep = [] then map (\<lambda>c. [c]) s else split_at sep [] s)"

text \<open>\<^verbatim>\<open>s.slice(a, b)\<close> and \<^verbatim>\<open>s.slice(a)\<close>: negative indices count from the end.\<close>

definition slice_index :: "int \<Rightarrow> int \<Rightarrow> nat" where
  "slice_index len i = nat (if i < 0 then max (len + i) 0 else min i len)"

definition js_slice :: "string \<Rightarrow> int \<Rightarrow> int \<Rightarrow> string" where
  "js_slice s a b =
     (let len = int (length s); from = slice_index len a; to = slice_index len b
      in take (to - from) (drop from s))"

definition js_slice_from :: "string \<Rightarrow> int \<Rightarrow> string" where
  "js_slice_from s a = js_slice s a (int (length s))"

section \<open>Block segmentation\<close>

text \<open>
  The patterns of \<^verbatim>\<open>REGEX\<close> that the segmenter uses. \<^verbatim>\<open>codeFenceStart = /^```(\w*)/\<close>
  matches a line that begins with three backticks and captures the word characters that
  follow; \<^verbatim>\<open>codeFenceEnd = /^```$/\<close> matches the line of exactly three backticks;
  \<^verbatim>\<open>header = /^(#{1,6})\s+(.*)/\<close> matches one to six hashes followed by white space, and
  captures the hashes and the rest of the line up to a line terminator.
\<close>

definition fence :: string where
  "fence = [CHR 0x60, CHR 0x60, CHR 0x60]"

definition codeFenceStart_test :: "string \<Rightarrow> bool" where
  "codeFenceStart_test line = starts_with fence line"

definition codeFenceStart_group :: "string \<Rightarrow> string" where
  "codeFenceStart_group line = takeWhile js_word (drop 3 line)"

definition codeFenceEnd_test :: "string \<Rightarrow> bool" where
  "codeFenceEnd_test line = (line = fence)"

definition header_match :: "string \<Rightarrow> (string \<times> string) option" where
  "header_match line =
     (let hashes = takeWhile (\<lambda>c. c = CHR ''#'') line;
          rest = dropWhile (\<lambda>c. c = CHR ''#'') line
      in if 1 \<le> length hashes \<and> length hashes \<le> 6 \<and> rest \<noteq> [] \<and> js_space (hd rest)
         then Some (hashes, takeWhile (\<lambda>c. \<not> js_line_terminator c) (dropWhile js_space rest))
         else None)"

datatype block_type = Ttext | Tcode | Theader | Tquote | Tlist | Thr | Tempty

record MarkdownBlock =
  type :: block_type
  content :: string
  prefix :: "string option"
  lang :: "string option"
  raw :: string

record scan_state =
  blocks :: "MarkdownBlock list"
  currentTextBuffer :: "string list"
  inCodeBlock :: bool
  codeLang :: string
  codeBuffer :: "string list"

definition flushTextBuffer :: "scan_state \<Rightarrow> scan_state" where
  "flushTextBuffer st =
     (if currentTextBuffer st \<noteq> []
      then st\<lparr>blocks := blocks st @
                 [\<lparr>type = Ttext, content = js_join [newline] (currentTextBuffer st),
                   prefix = None, lang = None,
                   raw = js_join [newline] (currentTextBuffer st)\<rparr>],
              currentTextBuffer := []\<rparr>
      else st)"

text \<open>One iteration of the loop over the lines.\<close>

definition scan_line :: "scan_state \<Rightarrow> string \<Rightarrow> scan_state" where
  "scan_line st line =
     (if \<not> inCodeBlock st \<and> codeFenceStart_test line
      then (flushTextBuffer st)\<lparr>inCodeBlock := True,
                                codeLang := codeFenceStart_group line,
                                codeBuffer := []\<rparr>
      else if inCodeBlock st
      then (if codeFenceEnd_test line
            then st\<lparr>inCodeBlock := False,
                    blocks := blocks st @
                      [\<lparr>type = Tcode, content = js_join [newline] (codeBuffer st),
                        prefix = None, lang = Some (codeLang st),
                        raw = fence @ codeLang st @ [newline] @
                              js_join [newline] (codeBuffer st) @ [newline] @ fence\<rparr>],
                    codeBuffer := []\<rparr>
            else st\<lparr>codeBuffer := codeBuffer st @ [line]\<rparr>)
      else (case header_match line of
              Some (hashes, rest) \<Rightarrow>
                (let st' = flushTextBuffer st
                 in st'\<lparr>blocks := blocks st' @
                      [\<lparr>type = Theader, content = rest, prefix = Some (hashes @ '' ''),
                        lang = None, raw = line\<rparr>]\<rparr>)
            | None \<Rightarrow>
                (if js_trim line = []
                 then (let st' = flushTextBuffer st
                       in st'\<lparr>blocks := blocks st' @
                            [\<lparr>type = Tempty, content = [], prefix = None, lang = None,
                              raw = []\<rparr>]\<rparr>)
                 else st\<lparr>currentTextBuffer := currentTextBuffer st @ [line]\<rparr>)))"

definition scan_init :: scan_state where
  "scan_init = \<lparr>blocks = [], currentTextBuffer = [], inCodeBlock = False,
                 codeLang = [], codeBuffer = []\<rparr>"

definition parseMarkdownIntoBlocks :: "string \<Rightarrow> MarkdownBlock list" where
  "parseMarkdownIntoBlocks txt =
     blocks (flushTextBuffer (foldl scan_line scan_init (split_newline txt)))"

section \<open>Content hash\<close>

text \<open>
  \<^verbatim>\<open>djb2Hash\<close> normalises the string (\<^verbatim>\<open>\r\n\<close> to \<^verbatim>\<open>\n\<close>, every run of white space to one
  space, trimmed) and folds \<^verbatim>\<open>hash = ((hash << 5) + hash) + code\<close> over its code units.
  The shift works on the 32-bit signed value of \<^verbatim>\<open>hash\<close>; the two additions are additions
  of numbers, exact below \<open>2 ^ 53\<close>, and are modelled on \<^typ>\<open>int\<close>. The result is the
  unsigned 32-bit value in hexadecimal.
\<close>

fun replace_crlf :: "string \<Rightarrow> string" where
  "replace_crlf (c # d # cs) =
     (if c = CHR 0x0D \<and> d = CHR 0x0A then newline # replace_crlf cs
      else c # replace_crlf (d # cs))"
| "replace_crlf cs = cs"

fun collapse_from :: "bool \<Rightarrow> string \<Rightarrow> string" where
  "collapse_from in_run [] = []"
| "collapse_from in_run (c # cs) =
     (if js_space c
      then (if in_run then collapse_from True cs else CHR '' '' # collapse_from True cs)
      else c # collapse_from False cs)"

definition collapse_space :: "string \<Rightarrow> string" where
  "collapse_space s = collapse_from False s"

definition to_int32 :: "int \<Rightarrow> int" where
  "to_int32 x = (x + 2 ^ 31) mod 2 ^ 32 - 2 ^ 31"

definition to_uint32 :: "int \<Rightarrow> int" where
  "to_uint32 x = x mod 2 ^ 32"

definition hex_digit :: "nat \<Rightarrow> char" where
  "hex_digit d = (if d < 10 then char_of (48 + d) else char_of (87 + d))"

fun to_hex :: "nat \<Rightarrow> string" where
  "to_hex n = (if n < 16 then [hex_digit n] else to_hex (n div 16) @ [hex_digit (n mod 16)])"

definition djb2Hash :: "string \<Rightarrow> string" where
  "djb2Hash str =
     (let cleanStr = js_trim (collapse_space (replace_crlf str));
          hash = foldl (\<lambda>hash c. (to_int32 (hash * 32) + hash) + int (of_char c)) 5381 cleanStr
      in to_hex (nat (to_uint32 hash)))"

section \<open>Highlighting\<close>

record Annotation =
  ann_id :: string
  ann_text :: string
  ann_note :: string
  timestamp :: int
  contextHash :: string
  startOffset :: int
  endOffset :: int

text \<open>
  The fragments that the string case of \<^verbatim>\<open>RecursiveHighlighter\<close> pushes: a plain slice of
  the text, or a highlighted span. A span keeps its annotation, the cursor that is part of
  its key, the bounds \<^verbatim>\<open>hlStart\<close> and \<^verbatim>\<open>hlEnd\<close> it was computed from, and its content.
\<close>

datatype fragment =
  Plain string
| Span Annotation int int int string

definition relevant :: "int \<Rightarrow> int \<Rightarrow> Annotation list \<Rightarrow> Annotation list" where
  "relevant start end anns =
     sort_key startOffset (filter (\<lambda>a. startOffset a < end \<and> endOffset a > start) anns)"

text \<open>The loop over the relevant annotations; it returns the fragments and the cursor.\<close>

fun highlight_loop ::
  "string \<Rightarrow> int \<Rightarrow> int \<Rightarrow> int \<Rightarrow> Annotation list \<Rightarrow> fragment list \<times> int" where
  "highlight_loop txt start end cursor [] = ([], cursor)"
| "highlight_loop txt start end cursor (ann # anns) =
     (let hlStart = max (startOffset ann) cursor;
          hlEnd = min (endOffset ann) end
      in if hlStart \<ge> hlEnd then highlight_loop txt start end cursor anns
         else (let before = (if hlStart > cursor
                             then [Plain (js_slice txt (cursor - start) (hlStart - start))]
                             else []);
                   content = js_slice txt (hlStart - start) (hlEnd - start);
                   (rest, cursor') = highlight_loop txt start end hlEnd anns
               in (before @ Span ann cursor hlStart hlEnd content # rest, cursor')))"

text \<open>
  The string case: the fragments rendered for the text node \<open>txt\<close> that begins at offset
  \<open>start\<close> of the block, and the new value of \<^verbatim>\<open>currentOffset\<close>.
\<close>

definition highlight_string ::
  "string \<Rightarrow> int \<Rightarrow> Annotation list \<Rightarrow> fragment list \<times> int" where
  "highlight_string txt start anns =
     (let end = start + int (length txt);
          rel = relevant start end anns
      in if rel = [] then ([Plain txt], end)
         else (let (fragments, cursor) = highlight_loop txt start end start rel
               in (fragments @
                     (if cursor < end then [Plain (js_slice_from txt (cursor - start))] else []),
                   end)))"

text \<open>
  The rendered children of a block, a \<^verbatim>\<open>React.ReactNode\<close>: a string, a number, an empty node
  (\<^verbatim>\<open>null\<close>, \<^verbatim>\<open>undefined\<close> or \<^verbatim>\<open>false\<close>), \<^verbatim>\<open>true\<close>, an element or an array of nodes. Of a
  number only its rendering \<^verbatim>\<open>String(n)\<close> is read, and the node carries that string. Of an
  element the walk reads two things: whether it is a code element
  (\<^verbatim>\<open>node.type === CodeBlock\<close> or \<^verbatim>\<open>node.props.node?.tagName === 'code'\<close>), and
  \<^verbatim>\<open>props.children\<close>, which is the empty node when the element has none.
\<close>

datatype node =
  TextNode string
| NumberNode string
| EmptyNode
| TrueNode
| Element bool node
| Array "node list"

text \<open>The truth value of a node in a condition.\<close>

fun js_truthy :: "node \<Rightarrow> bool" where
  "js_truthy (TextNode s) = (s \<noteq> [])"
| "js_truthy (NumberNode s) = (s \<noteq> ''0'' \<and> s \<noteq> ''NaN'')"
| "js_truthy EmptyNode = False"
| "js_truthy TrueNode = True"
| "js_truthy (Element code children) = True"
| "js_truthy (Array ns) = True"

fun getTextContent :: "node \<Rightarrow> string" where
  "getTextContent (TextNode s) = s"
| "getTextContent (NumberNode s) = s"
| "getTextContent EmptyNode = []"
| "getTextContent TrueNode = []"
| "getTextContent (Array ns) = concat (map getTextContent ns)"
| "getTextContent (Element code children) =
     (if js_truthy children then getTextContent children else [])"

text \<open>
  The nodes that \<^verbatim>\<open>React.Children.map\<close> passes to its callback: arrays are flattened, and a
  boolean is passed as \<^verbatim>\<open>null\<close>.
\<close>

fun toArray :: "node \<Rightarrow> node list" where
  "toArray (Array ns) = concat (map toArray ns)"
| "toArray TrueNode = [EmptyNode]"
| "toArray n = [n]"

text \<open>
  What \<^verbatim>\<open>RecursiveHighlighter\<close> renders: the fragments of a text node, the node itself
  (a code element, an element without children, and any node that is neither a string, an
  element nor an array), the clone of an element with its processed children, or the
  group of the processed members of an array.
\<close>

datatype rendered =
  Fragments "fragment list"
| Same node
| Clone "rendered list"
| Group "rendered list"

text \<open>The measure under which the walk over a node ends.\<close>

fun weight :: "node \<Rightarrow> nat" where
  "weight (Element code children) = weight children + 2"
| "weight (Array ns) = sum_list (map weight ns) + 2"
| "weight n = 1"

text \<open>
  \<^verbatim>\<open>RecursiveHighlighter\<close>. The components of the children render in the order of the tree,
  one after the other, and share the counter \<^verbatim>\<open>currentOffset\<close>: the walk takes the value of
  the counter and returns the new one. A code element is not entered; the length of its
  text is added to the counter.
\<close>

function RecursiveHighlighter :: "Annotation list \<Rightarrow> node \<Rightarrow> int \<Rightarrow> rendered \<times> int"
  and highlight_children :: "Annotation list \<Rightarrow> node list \<Rightarrow> int \<Rightarrow> rendered list \<times> int"
where
  "RecursiveHighlighter annotations (TextNode s) currentOffset =
     (let (fragments, off) = highlight_string s currentOffset annotations
      in (Fragments fragments, off))"
| "RecursiveHighlighter annotations (Element isCodeBlock children) currentOffset =
     (if isCodeBlock
      then (Same (Element isCodeBlock children),
            currentOffset + int (length (getTextContent (Element isCodeBlock children))))
      else if \<not> js_truthy children then (Same (Element isCodeBlock children), currentOffset)
      else (let (processedChildren, off) =
                  highlight_children annotations (toArray children) currentOffset
            in (Clone processedChildren, off)))"
| "RecursiveHighlighter annotations (Array ns) currentOffset =
     (let (rs, off) = highlight_children annotations ns currentOffset in (Group rs, off))"
| "RecursiveHighlighter annotations (NumberNode s) currentOffset = (Same (NumberNode s), currentOffset)"
| "RecursiveHighlighter annotations EmptyNode currentOffset = (Same EmptyNode, currentOffset)"
| "RecursiveHighlighter annotations TrueNode currentOffset = (Same TrueNode, currentOffset)"
| "highlight_children annotations [] currentOffset = ([], currentOffset)"
| "highlight_children annotations (child # ns) currentOffset =
     (let (r, off) = RecursiveHighlighter annotations child currentOffset;
          (rs, off') = highlight_children annotations ns off
      in (r # rs, off'))"
  by pat_completeness auto
termination
proof -
  have pos: "0 < weight n" for n
    by (cases n) simp_all
  have flat: "sum_list (map weight (toArray n)) \<le> weight n" for n
  proof (induction n)
    case (Array ns)
    then have "sum_list (map weight (concat (map toArray ns))) \<le> sum_list (map weight ns)"
      by (induction ns) (simp_all add: add_mono)
    then show ?case by simp
  qed simp_all
  have flat': "2 * sum_list (map weight (toArray n)) < Suc (Suc (Suc (2 * weight n)))" for n
    using flat [of n] by linarith
  show ?thesis
    by (relation "measure (\<lambda>x. case x of
            Inl (anns, n, off) \<Rightarrow> 2 * weight n
          | Inr (anns, ns, off) \<Rightarrow> 2 * sum_list (map weight ns) + 1)")
       (simp_all add: pos flat')
qed

text \<open>
  \<^verbatim>\<open>AnnotatedBlock\<close>: the annotations are those whose \<^verbatim>\<open>contextHash\<close> is the hash of the
  text of the block, and the offset tracker starts at 0.
\<close>

definition AnnotatedBlock :: "node \<Rightarrow> Annotation list \<Rightarrow> rendered" where
  "AnnotatedBlock children annotations =
     (let textContent = getTextContent children;
          hash = djb2Hash textContent;
          blockAnnotations = filter (\<lambda>a. contextHash a = hash) annotations
      in fst (RecursiveHighlighter blockAnnotations children 0))"

text \<open>The fragments of the text nodes of a rendered block, in the order of the walk.\<close>

fun fragments_of :: "rendered \<Rightarrow> fragment list" where
  "fragments_of (Fragments fs) = fs"
| "fragments_of (Same n) = []"
| "fragments_of (Clone rs) = concat (map fragments_of rs)"
| "fragments_of (Group rs) = concat (map fragments_of rs)"

text \<open>The highlighted substrings and the highlighted ranges of a list of fragments.\<close>

fun highlighted :: "fragment list \<Rightarrow> string list" where
  "highlighted [] = []"
| "highlighted (Plain s # fs) = highlighted fs"
| "highlighted (Span a c lo hi s # fs) = s # highlighted fs"

fun ranges :: "fragment list \<Rightarrow> (int \<times> int) list" where
  "ranges [] = []"
| "ranges (Plain s # fs) = ranges fs"
| "ranges (Span a c lo hi s # fs) = (lo, hi) # ranges fs"

fun fragment_text :: "fragment \<Rightarrow> string" where
  "fragment_text (Plain s) = s"
| "fragment_text (Span a c lo hi s) = s"

text \<open>
  The offsets that the walk gives to the text nodes of a block: for each text node the
  value of the counter when the walk reaches it and the value it leaves. The offsets
  between two such ranges belong to code elements.
\<close>

fun text_ranges :: "node \<Rightarrow> int \<Rightarrow> (int \<times> int) list \<times> int"
  and text_ranges_list :: "node list \<Rightarrow> int \<Rightarrow> (int \<times> int) list \<times> int"
where
  "text_ranges (TextNode s) off = ([(off, off + int (length s))], off + int (length s))"
| "text_ranges (NumberNode s) off = ([], off)"
| "text_ranges EmptyNode off = ([], off)"
| "text_ranges TrueNode off = ([], off)"
| "text_ranges (Element isCodeBlock children) off =
     (if isCodeBlock then ([], off + int (length (getTextContent (Element isCodeBlock children))))
      else if js_truthy children then text_ranges children off
      else ([], off))"
| "text_ranges (Array ns) off = text_ranges_list ns off"
| "text_ranges_list [] off = ([], off)"
| "text_ranges_list (n # ns) off =
     (let (ts, off1) = text_ranges n off;
          (ts', off2) = text_ranges_list ns off1
      in (ts @ ts', off2))"

text \<open>A node with no code element and no number in it.\<close>

fun text_only :: "node \<Rightarrow> bool" where
  "text_only (TextNode s) = True"
| "text_only (NumberNode s) = False"
| "text_only EmptyNode = True"
| "text_only TrueNode = True"
| "text_only (Element isCodeBlock children) = (\<not> isCodeBlock \<and> text_only children)"
| "text_only (Array ns) = list_all text_only ns"

text \<open>
  The documents on which segmentation keeps every code unit: outside a fence a line of
  white space only is the empty line; a fence is opened by a line that is three backticks
  and word characters only, holds at least one line, and is closed. The first argument says
  whether the scan is inside a fence, the second counts the lines of the open fence.
\<close>

fun faithful_lines :: "bool \<Rightarrow> nat \<Rightarrow> string list \<Rightarrow> bool" where
  "faithful_lines inside n [] = (\<not> inside)"
| "faithful_lines inside n (l # ls) =
     (if \<not> inside \<and> codeFenceStart_test l
      then l = fence @ codeFenceStart_group l \<and> faithful_lines True 0 ls
      else if inside
      then (if codeFenceEnd_test l then 0 < n \<and> faithful_lines False 0 ls
            else faithful_lines True (Suc n) ls)
      else (js_trim l = [] \<longrightarrow> l = []) \<and> faithful_lines False 0 ls)"

text \<open>
  For the proof that segmentation is lossless: the lines that a list of blocks stands for,
  the lines that the scan has read and not yet put into a block, and the shape of the
  state during the scan (the text buffer is empty inside a fence, and no buffered line
  contains a newline).
\<close>

definition block_lines :: "MarkdownBlock list \<Rightarrow> string list" where
  "block_lines bs = concat (map (\<lambda>b. split_newline (raw b)) bs)"

definition pending_lines :: "scan_state \<Rightarrow> string list" where
  "pending_lines st =
     currentTextBuffer st @
     (if inCodeBlock st then (fence @ codeLang st) # codeBuffer st else [])"

definition scan_ok :: "scan_state \<Rightarrow> bool" where
  "scan_ok st =
     ((inCodeBlock st \<longrightarrow> currentTextBuffer st = []) \<and>
      (\<forall>l \<in> set (currentTextBuffer st) \<union> set (codeBuffer st). newline \<notin> set l) \<and>
      newline \<notin> set (codeLang st))"

section \<open>Task queue\<close>

text \<open>
  The class \<^verbatim>\<open>TaskQueue\<close>. A task is named by a value of type \<open>'a\<close>. \<^verbatim>\<open>next\<close> returns the
  task it starts, if any; \<open>tq_finally\<close> is the callback that runs when a started task's
  promise settles.
\<close>

record 'a TaskQueue =
  queue :: "'a list"
  active :: int
  concurrency :: int

definition tq_new :: "int \<Rightarrow> 'a TaskQueue" where
  "tq_new c = \<lparr>queue = [], active = 0, concurrency = c\<rparr>"

definition tq_next :: "'a TaskQueue \<Rightarrow> 'a TaskQueue \<times> 'a option" where
  "tq_next q =
     (if active q \<ge> concurrency q \<or> queue q = [] then (q, None)
      else (q\<lparr>queue := tl (queue q), active := active q + 1\<rparr>, Some (hd (queue q))))"

definition tq_add :: "'a TaskQueue \<Rightarrow> 'a \<Rightarrow> 'a TaskQueue \<times> 'a option" where
  "tq_add q t = tq_next (q\<lparr>queue := queue q @ [t]\<rparr>)"

definition tq_finally :: "'a TaskQueue \<Rightarrow> 'a TaskQueue \<times> 'a option" where
  "tq_finally q = tq_next (q\<lparr>active := active q - 1\<rparr>)"

text \<open>
  A run of the queue: tasks are added, and started tasks settle in any order. \<open>running\<close>
  holds the tasks started and not yet settled, \<open>started\<close> every task in the order of its
  start. A task that is not running cannot settle.
\<close>

datatype 'a tq_event = Add 'a | Settled 'a

record 'a tq_run =
  tq :: "'a TaskQueue"
  running :: "'a list"
  started :: "'a list"

definition tq_init :: "int \<Rightarrow> 'a tq_run" where
  "tq_init c = \<lparr>tq = tq_new c, running = [], started = []\<rparr>"

definition tq_started :: "'a tq_run \<Rightarrow> 'a TaskQueue \<times> 'a option \<Rightarrow> 'a tq_run" where
  "tq_started r res =
     (case snd res of
        None \<Rightarrow> r\<lparr>tq := fst res\<rparr>
      | Some t \<Rightarrow> r\<lparr>tq := fst res, running := running r @ [t], started := started r @ [t]\<rparr>)"

fun tq_step :: "'a tq_run \<Rightarrow> 'a tq_event \<Rightarrow> 'a tq_run" where
  "tq_step r (Add t) = tq_started r (tq_add (tq r) t)"
| "tq_step r (Settled t) =
     (if t \<in> set (running r)
      then tq_started (r\<lparr>running := remove1 t (running r)\<rparr>) (tq_finally (tq r))
      else r)"

fun added :: "'a tq_event list \<Rightarrow> 'a list" where
  "added [] = []"
| "added (Add t # evs) = t # added evs"
| "added (Settled t # evs) = added evs"

section \<open>Translation pass\<close>

text \<open>
  Of \<^verbatim>\<open>AISettings\<close> the pass reads \<^verbatim>\<open>batchSize\<close> and \<^verbatim>\<open>concurrency\<close>, each with a
  default that replaces a missing or zero value.
\<close>

record AISettings =
  cfg_concurrency :: int
  cfg_batchSize :: int

definition batchSize_of :: "AISettings option \<Rightarrow> int" where
  "batchSize_of settings =
     (case settings of None \<Rightarrow> 10 | Some s \<Rightarrow> if cfg_batchSize s = 0 then 10 else cfg_batchSize s)"

definition concurrency_of :: "AISettings option \<Rightarrow> int" where
  "concurrency_of settings =
     (case settings of None \<Rightarrow> 3 | Some s \<Rightarrow> if cfg_concurrency s = 0 then 3 else cfg_concurrency s)"

record item =
  block :: MarkdownBlock
  index :: nat

datatype job = Batch "item list" | Single item

fun job_items :: "job \<Rightarrow> item list" where
  "job_items (Batch its) = its"
| "job_items (Single it) = [it]"

definition with_index :: "MarkdownBlock list \<Rightarrow> item list" where
  "with_index bs = map (\<lambda>(i, b). \<lparr>block = b, index = i\<rparr>) (enumerate 0 bs)"

definition blocksToTranslate :: "(string \<rightharpoonup> string) \<Rightarrow> MarkdownBlock list \<Rightarrow> item list" where
  "blocksToTranslate cache bs =
     filter (\<lambda>it. type (block it) \<noteq> Tempty \<and> cache (raw (block it)) = None) (with_index bs)"

text \<open>\<^verbatim>\<open>cached || block.raw\<close>: an empty cached string counts as absent.\<close>

definition initialRenderedBlocks :: "(string \<rightharpoonup> string) \<Rightarrow> MarkdownBlock list \<Rightarrow> string list" where
  "initialRenderedBlocks cache bs =
     map (\<lambda>b. if type b = Tempty then []
              else (case cache (raw b) of
                      None \<Rightarrow> raw b
                    | Some cached \<Rightarrow> if cached = [] then raw b else cached)) bs"

text \<open>The loop that groups the blocks to translate; \<open>cur\<close> is \<^verbatim>\<open>currentBatch\<close>.\<close>

fun make_batches :: "int \<Rightarrow> item list \<Rightarrow> item list \<Rightarrow> job list" where
  "make_batches batchSize cur [] = (if cur \<noteq> [] then [Batch cur] else [])"
| "make_batches batchSize cur (it # its) =
     (if type (block it) = Tcode \<or> length (content (block it)) > 1000
      then (if cur \<noteq> [] then [Batch cur] else []) @ Single it # make_batches batchSize [] its
      else (let cur' = cur @ [it]
            in if int (length cur') \<ge> batchSize
               then Batch cur' # make_batches batchSize [] its
               else make_batches batchSize cur' its))"

text \<open>
  The state of one pass. \<open>inflight\<close> holds the jobs that await their transformation call,
  \<open>requests\<close> the texts of the calls issued, \<open>accumulatedStream\<close> the stream buffer of each
  singleton job, \<open>published\<close> the arguments of the calls of \<^verbatim>\<open>setDisplayedContent\<close> and
  \<open>progress\<close> the reports \<^verbatim>\<open>(current, total)\<close> passed to \<^verbatim>\<open>onTranslatingStatusChange\<close>,
  each in order. \<open>aborted\<close> is \<^verbatim>\<open>controller.signal.aborted\<close> and \<open>lastUpdate\<close> is
  \<^verbatim>\<open>lastUpdateRef.current\<close>.
\<close>

record pass_state =
  jobs :: "job list"
  taskQueue :: "nat TaskQueue"
  inflight :: "nat list"
  requests :: "string list"
  accumulatedStream :: "nat \<Rightarrow> string"
  currentRenderedBlocks :: "string list"
  chunkCache :: "string \<rightharpoonup> string"
  completedCount :: int
  totalBlocks :: int
  aborted :: bool
  lastUpdate :: int
  published :: "string list"
  progress :: "(int \<times> int) list"

text \<open>\<^verbatim>\<open>xs[i] = v\<close>: a write past the end extends the array; a hole joins as the empty string.\<close>

definition js_set :: "string list \<Rightarrow> nat \<Rightarrow> string \<Rightarrow> string list" where
  "js_set xs i v =
     (if i < length xs then xs[i := v] else xs @ replicate (i - length xs) [] @ [v])"

definition setDisplayedContent :: "pass_state \<Rightarrow> pass_state" where
  "setDisplayedContent st =
     st\<lparr>published := published st @ [js_join [newline] (currentRenderedBlocks st)]\<rparr>"

definition updateProgress :: "pass_state \<Rightarrow> pass_state" where
  "updateProgress st =
     (let c = completedCount st + 1
      in st\<lparr>completedCount := c,
             progress := progress st @ [(min c (totalBlocks st), totalBlocks st)]\<rparr>)"

definition delimiter :: string where
  "delimiter = [newline, newline] @ ''<<<BATCH_SEP>>>'' @ [newline, newline]"

definition prefix_or_empty :: "MarkdownBlock \<Rightarrow> string" where
  "prefix_or_empty b = (case prefix b of None \<Rightarrow> [] | Some p \<Rightarrow> p)"

text \<open>The text a job sends to the transformation call.\<close>

fun request_text :: "job \<Rightarrow> string" where
  "request_text (Batch its) = js_join delimiter (map (\<lambda>it. content (block it)) its)"
| "request_text (Single it) = content (block it)"

text \<open>
  \<^verbatim>\<open>parts[idx] ? parts[idx].trim() : item.block.content\<close>: a missing or empty part gives
  the item's own content.
\<close>

definition batch_translation :: "string list \<Rightarrow> nat \<Rightarrow> item \<Rightarrow> string" where
  "batch_translation parts idx it =
     (if idx < length parts \<and> parts ! idx \<noteq> [] then js_trim (parts ! idx)
      else content (block it))"

text \<open>The body of the \<^verbatim>\<open>forEach\<close> of \<^verbatim>\<open>processBatch\<close>, from item number \<open>idx\<close> on.\<close>

fun batch_forEach :: "string list \<Rightarrow> nat \<Rightarrow> item list \<Rightarrow> pass_state \<Rightarrow> pass_state" where
  "batch_forEach parts idx [] st = st"
| "batch_forEach parts idx (it # its) st =
     (let finalBlock = prefix_or_empty (block it) @ batch_translation parts idx it
      in batch_forEach parts (Suc idx) its
           (updateProgress
              (st\<lparr>chunkCache := (chunkCache st)(raw (block it) \<mapsto> finalBlock),
                  currentRenderedBlocks := js_set (currentRenderedBlocks st) (index it) finalBlock\<rparr>)))"

text \<open>How a transformation call settles: it returns the translated text, or it throws.\<close>

datatype outcome = Returned string | Threw

text \<open>
  \<^verbatim>\<open>processBatch\<close> after its \<^verbatim>\<open>await\<close>: on a result the parts are written, on an exception
  the error is logged and nothing else happens.
\<close>

fun processBatch_settled :: "item list \<Rightarrow> outcome \<Rightarrow> pass_state \<Rightarrow> pass_state" where
  "processBatch_settled batchItems (Returned translatedTextFull) st =
     setDisplayedContent
       (batch_forEach (js_split ''<<<BATCH_SEP>>>'' translatedTextFull) 0 batchItems st)"
| "processBatch_settled batchItems Threw st = st"

definition single_prefix :: "MarkdownBlock \<Rightarrow> string" where
  "single_prefix b =
     (if type b = Tcode then fence @ (case lang b of None \<Rightarrow> [] | Some l \<Rightarrow> l) @ [newline]
      else prefix_or_empty b)"

definition single_suffix :: "MarkdownBlock \<Rightarrow> string" where
  "single_suffix b = (if type b = Tcode then [newline] @ fence else [])"

text \<open>The delta callback of \<^verbatim>\<open>processSingle\<close> for job \<open>j\<close>; \<open>now\<close> is \<^verbatim>\<open>Date.now()\<close>.\<close>

definition processSingle_delta :: "nat \<Rightarrow> item \<Rightarrow> string \<Rightarrow> int \<Rightarrow> pass_state \<Rightarrow> pass_state" where
  "processSingle_delta j it delta now st =
     (if aborted st then st
      else (let acc = accumulatedStream st j @ delta;
                st1 = st\<lparr>accumulatedStream := (accumulatedStream st)(j := acc)\<rparr>
            in if now - lastUpdate st1 > 100
               then setDisplayedContent
                      (st1\<lparr>lastUpdate := now,
                           currentRenderedBlocks :=
                             js_set (currentRenderedBlocks st1) (index it)
                               (single_prefix (block it) @ acc @ single_suffix (block it))\<rparr>)
               else st1))"

text \<open>\<^verbatim>\<open>processSingle\<close> after its \<^verbatim>\<open>await\<close>.\<close>

fun processSingle_settled :: "item \<Rightarrow> outcome \<Rightarrow> pass_state \<Rightarrow> pass_state" where
  "processSingle_settled it (Returned t) st =
     (let finalTranslatedBlock = single_prefix (block it) @ t @ single_suffix (block it)
      in if aborted st then st
         else updateProgress
                (setDisplayedContent
                   (st\<lparr>chunkCache := (chunkCache st)(raw (block it) \<mapsto> finalTranslatedBlock),
                       currentRenderedBlocks :=
                         js_set (currentRenderedBlocks st) (index it) finalTranslatedBlock\<rparr>)))"
| "processSingle_settled it Threw st = st"

text \<open>
  \<^verbatim>\<open>TaskQueue.next\<close> inside a pass. The task of job \<open>j\<close> returns at once when the pass is
  aborted, so that its \<^verbatim>\<open>finally\<close> callback runs and calls \<^verbatim>\<open>next\<close> again; otherwise it
  issues its transformation call and waits.
\<close>

function next_task :: "pass_state \<Rightarrow> pass_state" where
  "next_task st =
     (case tq_next (taskQueue st) of
        (q, None) \<Rightarrow> st
      | (q, Some j) \<Rightarrow>
          (if aborted st then next_task (st\<lparr>taskQueue := q\<lparr>active := active q - 1\<rparr>\<rparr>)
           else st\<lparr>taskQueue := q, inflight := inflight st @ [j],
                   requests := requests st @ [request_text (jobs st ! j)],
                   accumulatedStream := (accumulatedStream st)(j := [])\<rparr>))"
  by pat_completeness auto
termination
  by (relation "measure (\<lambda>st. length (queue (taskQueue st)))")
     (auto simp: tq_next_def split: if_splits)

declare next_task.simps [simp del]

definition add_task :: "pass_state \<Rightarrow> nat \<Rightarrow> pass_state" where
  "add_task st j = next_task (st\<lparr>taskQueue := (taskQueue st)\<lparr>queue := queue (taskQueue st) @ [j]\<rparr>\<rparr>)"

text \<open>The \<^verbatim>\<open>finally\<close> callback of a task.\<close>

definition task_finally :: "pass_state \<Rightarrow> pass_state" where
  "task_finally st = next_task (st\<lparr>taskQueue := (taskQueue st)\<lparr>active := active (taskQueue st) - 1\<rparr>\<rparr>)"

text \<open>
  What happens to a pass after its start: the call of job \<open>j\<close> streams a chunk at a time
  \<open>now\<close>, the call of job \<open>j\<close> settles, or the pass is cancelled. A call that is not in
  flight neither streams nor settles; a batch passes no delta callback.
\<close>

datatype event = Delta nat string int | Settle nat outcome | Abort

fun step :: "pass_state \<Rightarrow> event \<Rightarrow> pass_state" where
  "step st (Delta j delta now) =
     (if j \<in> set (inflight st)
      then (case jobs st ! j of
              Batch its \<Rightarrow> st
            | Single it \<Rightarrow> processSingle_delta j it delta now st)
      else st)"
| "step st (Settle j out) =
     (if j \<in> set (inflight st)
      then (let st1 = st\<lparr>inflight := remove1 j (inflight st)\<rparr>
            in task_finally
                 (case jobs st ! j of
                    Batch its \<Rightarrow> processBatch_settled its out st1
                  | Single it \<Rightarrow> processSingle_settled it out st1))
      else st)"
| "step st Abort = st\<lparr>aborted := True\<rparr>"

declare step.simps [simp del]

definition run :: "pass_state \<Rightarrow> event list \<Rightarrow> pass_state" where
  "run st evs = foldl step st evs"

text \<open>
  The synchronous part of \<^verbatim>\<open>runTranslation\<close>, for the settings, the cache, the value of
  \<^verbatim>\<open>lastUpdateRef\<close> and the document. With nothing to translate the pass reports no
  progress and has no job.
\<close>

definition runTranslation ::
  "AISettings option \<Rightarrow> (string \<rightharpoonup> string) \<Rightarrow> int \<Rightarrow> string \<Rightarrow> pass_state" where
  "runTranslation settings cache lastUpd doc =
     (let bs = parseMarkdownIntoBlocks doc;
          total = int (length (filter (\<lambda>b. type b \<noteq> Tempty) bs));
          rendered = initialRenderedBlocks cache bs;
          toTranslate = blocksToTranslate cache bs;
          st = \<lparr>jobs = [], taskQueue = tq_new (concurrency_of settings), inflight = [],
                requests = [], accumulatedStream = (\<lambda>j. []),
                currentRenderedBlocks = rendered, chunkCache = cache,
                completedCount = total - int (length toTranslate), totalBlocks = total,
                aborted = False, lastUpdate = lastUpd,
                published = [js_join [newline] rendered], progress = []\<rparr>
      in if toTranslate = [] then st
         else (let batches = make_batches (batchSize_of settings) [] toTranslate;
                   st1 = st\<lparr>jobs := batches,
                            progress := [(total - int (length toTranslate), total)]\<rparr>
               in foldl add_task st1 [0..<length batches]))"

text \<open>The test of the \<^verbatim>\<open>checkDone\<close> timer: the pass is over.\<close>

definition checkDone :: "pass_state \<Rightarrow> bool" where
  "checkDone st = (completedCount st \<ge> totalBlocks st \<or> aborted st)"

text \<open>
  The invariant of a pass: the queued and the awaited jobs are jobs of the pass, every item
  of a job has its slot in \<^verbatim>\<open>currentRenderedBlocks\<close>, and no two items of the pass share a
  slot.
\<close>

definition pass_inv :: "pass_state \<Rightarrow> bool" where
  "pass_inv st =
     ((\<forall>j \<in> set (inflight st) \<union> set (queue (taskQueue st)). j < length (jobs st)) \<and>
      (\<forall>jb \<in> set (jobs st). \<forall>it \<in> set (job_items jb).
          index it < length (currentRenderedBlocks st)) \<and>
      distinct (map index (concat (map job_items (jobs st)))))"

text \<open>
  The reports of a pass are in order: \<open>current\<close> never decreases, it stays at or below both
  the number of blocks counted as completed and \<open>total\<close>, and \<open>total\<close> is the same in every
  report.
\<close>

definition progress_ok :: "pass_state \<Rightarrow> bool" where
  "progress_ok st =
     (sorted (map fst (progress st)) \<and>
      (\<forall>p \<in> set (progress st). fst p \<le> min (completedCount st) (totalBlocks st) \<and>
                                snd p = totalBlocks st))"

section \<open>Properties\<close>

subsection \<open>Strings and lines\<close>

lemmas parse_defs = parseMarkdownIntoBlocks_def scan_init_def scan_line_def flushTextBuffer_def
  codeFenceStart_test_def codeFenceEnd_test_def codeFenceStart_group_def header_match_def
  starts_with_def fence_def newline_def js_trim_def js_space_def js_word_def
  js_line_terminator_def

lemma split_newline_not_Nil [simp]: "split_newline s \<noteq> []"
  by (induction s) (auto split: list.splits)

lemma split_newline_append:
  "split_newline (a @ newline # b) = split_newline a @ split_newline b"
  by (induction a) (auto split: list.splits)

lemma split_newline_no_newline: "newline \<notin> set s \<Longrightarrow> split_newline s = [s]"
  by (induction s) auto

subsection \<open>The task queue inside a pass\<close>

lemma next_task_idle:
  "active (taskQueue st) \<ge> concurrency (taskQueue st) \<or> queue (taskQueue st) = [] \<Longrightarrow>
   next_task st = st"
  by (subst next_task.simps) (auto simp: tq_next_def)

lemma next_task_issue:
  "\<not> aborted st \<Longrightarrow> active (taskQueue st) < concurrency (taskQueue st) \<Longrightarrow>
   queue (taskQueue st) \<noteq> [] \<Longrightarrow>
   next_task st =
     st\<lparr>taskQueue := (taskQueue st)\<lparr>queue := tl (queue (taskQueue st)),
                                     active := active (taskQueue st) + 1\<rparr>,
        inflight := inflight st @ [hd (queue (taskQueue st))],
        requests := requests st @ [request_text (jobs st ! hd (queue (taskQueue st)))],
        accumulatedStream := (accumulatedStream st)(hd (queue (taskQueue st)) := [])\<rparr>"
  by (subst next_task.simps) (auto simp: tq_next_def)

lemma next_task_skip:
  "aborted st \<Longrightarrow> active (taskQueue st) < concurrency (taskQueue st) \<Longrightarrow>
   queue (taskQueue st) \<noteq> [] \<Longrightarrow>
   next_task st = next_task (st\<lparr>taskQueue := (taskQueue st)\<lparr>queue := tl (queue (taskQueue st))\<rparr>\<rparr>)"
  by (subst next_task.simps) (auto simp: tq_next_def)

text \<open>Induction along the calls of \<open>next_task\<close>.\<close>

lemma next_task_induct [case_names idle issue skip]:
  assumes idle: "\<And>st. active (taskQueue st) \<ge> concurrency (taskQueue st) \<or>
                      queue (taskQueue st) = [] \<Longrightarrow> P st"
      and issue: "\<And>st. \<not> aborted st \<Longrightarrow> active (taskQueue st) < concurrency (taskQueue st) \<Longrightarrow>
                      queue (taskQueue st) \<noteq> [] \<Longrightarrow> P st"
      and skip: "\<And>st. aborted st \<Longrightarrow> active (taskQueue st) < concurrency (taskQueue st) \<Longrightarrow>
                      queue (taskQueue st) \<noteq> [] \<Longrightarrow>
                      P (st\<lparr>taskQueue := (taskQueue st)\<lparr>queue := tl (queue (taskQueue st))\<rparr>\<rparr>) \<Longrightarrow>
                      P st"
  shows "P st"
proof (induction "length (queue (taskQueue st))" arbitrary: st rule: less_induct)
  case less
  show ?case
  proof (cases "active (taskQueue st) \<ge> concurrency (taskQueue st) \<or> queue (taskQueue st) = []")
    case True
    then show ?thesis by (rule idle)
  next
    case False
    show ?thesis
    proof (cases "aborted st")
      case True
      have "P (st\<lparr>taskQueue := (taskQueue st)\<lparr>queue := tl (queue (taskQueue st))\<rparr>\<rparr>)"
        using False by (intro less) (cases "queue (taskQueue st)", auto)
      with True False show ?thesis by (auto intro: skip)
    next
      case nab: False
      with False show ?thesis by (auto intro: issue)
    qed
  qed
qed

text \<open>\<open>next_task\<close> touches the queue, the awaited jobs, the requests and the stream buffers only.\<close>

lemma next_task_frame [simp]:
  "jobs (next_task st) = jobs st"
  "currentRenderedBlocks (next_task st) = currentRenderedBlocks st"
  "chunkCache (next_task st) = chunkCache st"
  "completedCount (next_task st) = completedCount st"
  "totalBlocks (next_task st) = totalBlocks st"
  "aborted (next_task st) = aborted st"
  "lastUpdate (next_task st) = lastUpdate st"
  "published (next_task st) = published st"
  "progress (next_task st) = progress st"
  by (induction st rule: next_task_induct; simp add: next_task_idle next_task_issue next_task_skip)+

lemma add_task_frame [simp]:
  "jobs (add_task st j) = jobs st"
  "currentRenderedBlocks (add_task st j) = currentRenderedBlocks st"
  "chunkCache (add_task st j) = chunkCache st"
  "completedCount (add_task st j) = completedCount st"
  "totalBlocks (add_task st j) = totalBlocks st"
  "aborted (add_task st j) = aborted st"
  "lastUpdate (add_task st j) = lastUpdate st"
  "published (add_task st j) = published st"
  "progress (add_task st j) = progress st"
  by (simp_all add: add_task_def)

lemma task_finally_frame [simp]:
  "jobs (task_finally st) = jobs st"
  "currentRenderedBlocks (task_finally st) = currentRenderedBlocks st"
  "chunkCache (task_finally st) = chunkCache st"
  "completedCount (task_finally st) = completedCount st"
  "totalBlocks (task_finally st) = totalBlocks st"
  "aborted (task_finally st) = aborted st"
  "lastUpdate (task_finally st) = lastUpdate st"
  "published (task_finally st) = published st"
  "progress (task_finally st) = progress st"
  by (simp_all add: task_finally_def)

lemma foldl_add_task_frame [simp]:
  "jobs (foldl add_task st js) = jobs st"
  "currentRenderedBlocks (foldl add_task st js) = currentRenderedBlocks st"
  "chunkCache (foldl add_task st js) = chunkCache st"
  "completedCount (foldl add_task st js) = completedCount st"
  "totalBlocks (foldl add_task st js) = totalBlocks st"
  "aborted (foldl add_task st js) = aborted st"
  "lastUpdate (foldl add_task st js) = lastUpdate st"
  "published (foldl add_task st js) = published st"
  "progress (foldl add_task st js) = progress st"
  by (induction js arbitrary: st; simp)+

subsection \<open>The handlers of a job\<close>

lemma updateProgress_simps [simp]:
  "jobs (updateProgress st) = jobs st"
  "taskQueue (updateProgress st) = taskQueue st"
  "inflight (updateProgress st) = inflight st"
  "currentRenderedBlocks (updateProgress st) = currentRenderedBlocks st"
  "chunkCache (updateProgress st) = chunkCache st"
  "totalBlocks (updateProgress st) = totalBlocks st"
  "aborted (updateProgress st) = aborted st"
  "published (updateProgress st) = published st"
  "completedCount (updateProgress st) = completedCount st + 1"
  "progress (updateProgress st) =
     progress st @ [(min (completedCount st + 1) (totalBlocks st), totalBlocks st)]"
  by (simp_all add: updateProgress_def Let_def)

lemma setDisplayedContent_simps [simp]:
  "jobs (setDisplayedContent st) = jobs st"
  "taskQueue (setDisplayedContent st) = taskQueue st"
  "inflight (setDisplayedContent st) = inflight st"
  "currentRenderedBlocks (setDisplayedContent st) = currentRenderedBlocks st"
  "chunkCache (setDisplayedContent st) = chunkCache st"
  "totalBlocks (setDisplayedContent st) = totalBlocks st"
  "completedCount (setDisplayedContent st) = completedCount st"
  "aborted (setDisplayedContent st) = aborted st"
  "progress (setDisplayedContent st) = progress st"
  "published (setDisplayedContent st) =
     published st @ [js_join [newline] (currentRenderedBlocks st)]"
  by (simp_all add: setDisplayedContent_def)

lemma batch_forEach_frame [simp]:
  "jobs (batch_forEach parts idx its st) = jobs st"
  "taskQueue (batch_forEach parts idx its st) = taskQueue st"
  "inflight (batch_forEach parts idx its st) = inflight st"
  "totalBlocks (batch_forEach parts idx its st) = totalBlocks st"
  "aborted (batch_forEach parts idx its st) = aborted st"
  "published (batch_forEach parts idx its st) = published st"
  "completedCount (batch_forEach parts idx its st) = completedCount st + int (length its)"
  by (induction its arbitrary: idx st; simp add: Let_def)+

text \<open>No event changes the jobs of a pass or its total.\<close>

lemma step_frame [simp]:
  "jobs (step st ev) = jobs st"
  "totalBlocks (step st ev) = totalBlocks st"
  by (cases ev; cases "jobs st ! (case ev of Delta j _ _ \<Rightarrow> j | Settle j _ \<Rightarrow> j | Abort \<Rightarrow> 0)";
      cases "case ev of Settle _ out \<Rightarrow> out | _ \<Rightarrow> Threw";
      simp add: step.simps processSingle_delta_def Let_def)+

lemma run_frame [simp]:
  "jobs (run st evs) = jobs st"
  "totalBlocks (run st evs) = totalBlocks st"
  by (induction evs arbitrary: st; simp add: run_def)+

lemma run_Nil [simp]: "run st [] = st"
  by (simp add: run_def)

lemma run_Cons [simp]: "run st (ev # evs) = run (step st ev) evs"
  by (simp add: run_def)

lemma run_append [simp]: "run st (evs @ evs') = run (run st evs) evs'"
  by (simp add: run_def)

subsection \<open>The start of a pass\<close>

lemma runTranslation_fields:
  "totalBlocks (runTranslation settings cache lu doc) =
     int (length (filter (\<lambda>b. type b \<noteq> Tempty) (parseMarkdownIntoBlocks doc)))"
  "currentRenderedBlocks (runTranslation settings cache lu doc) =
     initialRenderedBlocks cache (parseMarkdownIntoBlocks doc)"
  "chunkCache (runTranslation settings cache lu doc) = cache"
  "aborted (runTranslation settings cache lu doc) = False"
  "completedCount (runTranslation settings cache lu doc) =
     int (length (filter (\<lambda>b. type b \<noteq> Tempty) (parseMarkdownIntoBlocks doc))) -
     int (length (blocksToTranslate cache (parseMarkdownIntoBlocks doc)))"
  "published (runTranslation settings cache lu doc) =
     [js_join [newline] (initialRenderedBlocks cache (parseMarkdownIntoBlocks doc))]"
  by (simp_all add: runTranslation_def Let_def)

lemma runTranslation_jobs:
  "jobs (runTranslation settings cache lu doc) =
     make_batches (batchSize_of settings) [] (blocksToTranslate cache (parseMarkdownIntoBlocks doc))"
  by (simp add: runTranslation_def Let_def)

lemma runTranslation_progress:
  "blocksToTranslate cache (parseMarkdownIntoBlocks doc) \<noteq> [] \<Longrightarrow>
   progress (runTranslation settings cache lu doc) =
     [(int (length (filter (\<lambda>b. type b \<noteq> Tempty) (parseMarkdownIntoBlocks doc))) -
       int (length (blocksToTranslate cache (parseMarkdownIntoBlocks doc))),
       int (length (filter (\<lambda>b. type b \<noteq> Tempty) (parseMarkdownIntoBlocks doc))))]"
  by (simp add: runTranslation_def Let_def)

text \<open>A call that throws changes nothing but the queue.\<close>

lemma step_Threw [simp]:
  "currentRenderedBlocks (step st (Settle j Threw)) = currentRenderedBlocks st"
  "chunkCache (step st (Settle j Threw)) = chunkCache st"
  "published (step st (Settle j Threw)) = published st"
  "progress (step st (Settle j Threw)) = progress st"
  "completedCount (step st (Settle j Threw)) = completedCount st"
  "aborted (step st (Settle j Threw)) = aborted st"
  by (cases "jobs st ! j"; simp add: step.simps)+

subsection \<open>Sample passes\<close>

lemma parse_hello:
  "parseMarkdownIntoBlocks ''hello'' =
     [\<lparr>type = Ttext, content = ''hello'', prefix = None, lang = None, raw = ''hello''\<rparr>]"
  by (simp add: parse_defs)

lemma pass_hello:
  "runTranslation None Map.empty 0 ''hello'' =
     \<lparr>jobs = [Batch [\<lparr>block = \<lparr>type = Ttext, content = ''hello'', prefix = None, lang = None,
                                raw = ''hello''\<rparr>, index = 0\<rparr>]],
      taskQueue = \<lparr>queue = [], active = 1, concurrency = 3\<rparr>, inflight = [0],
      requests = [''hello''], accumulatedStream = (\<lambda>j. []),
      currentRenderedBlocks = [''hello''], chunkCache = Map.empty,
      completedCount = 0, totalBlocks = 1, aborted = False, lastUpdate = 0,
      published = [''hello''], progress = [(0, 1)]\<rparr>"
  by (simp add: runTranslation_def parse_hello blocksToTranslate_def with_index_def
      enumerate_eq_zip initialRenderedBlocks_def batchSize_of_def concurrency_of_def tq_new_def
      Let_def add_task_def next_task_issue fun_eq_iff)

text \<open>A document with a paragraph and a fenced block: a batch and a singleton job.\<close>

lemma parse_mixed:
  "parseMarkdownIntoBlocks (''hello'' @ [newline] @ fence @ [newline] @ ''x'' @ [newline] @ fence) =
     [\<lparr>type = Ttext, content = ''hello'', prefix = None, lang = None, raw = ''hello''\<rparr>,
      \<lparr>type = Tcode, content = ''x'', prefix = None, lang = Some [],
       raw = fence @ [newline] @ ''x'' @ [newline] @ fence\<rparr>]"
  by (simp add: parse_defs)

lemma pass_mixed:
  "runTranslation None Map.empty 0
     (''hello'' @ [newline] @ fence @ [newline] @ ''x'' @ [newline] @ fence) =
     \<lparr>jobs = [Batch [\<lparr>block = \<lparr>type = Ttext, content = ''hello'', prefix = None, lang = None,
                                raw = ''hello''\<rparr>, index = 0\<rparr>],
              Single \<lparr>block = \<lparr>type = Tcode, content = ''x'', prefix = None, lang = Some [],
                                 raw = fence @ [newline] @ ''x'' @ [newline] @ fence\<rparr>,
                       index = 1\<rparr>],
      taskQueue = \<lparr>queue = [], active = 2, concurrency = 3\<rparr>, inflight = [0, 1],
      requests = [''hello'', ''x''], accumulatedStream = (\<lambda>j. []),
      currentRenderedBlocks = [''hello'', fence @ [newline] @ ''x'' @ [newline] @ fence],
      chunkCache = Map.empty,
      completedCount = 0, totalBlocks = 2, aborted = False, lastUpdate = 0,
      published = [''hello'' @ [newline] @ fence @ [newline] @ ''x'' @ [newline] @ fence],
      progress = [(0, 2)]\<rparr>"
  unfolding runTranslation_def parse_mixed
  by (simp add: blocksToTranslate_def with_index_def enumerate_eq_zip initialRenderedBlocks_def
      batchSize_of_def concurrency_of_def tq_new_def Let_def add_task_def next_task_issue
      fun_eq_iff upt_rec [of 0])

subsection \<open>The reports of progress\<close>

lemma progress_ok_updateProgress: "progress_ok st \<Longrightarrow> progress_ok (updateProgress st)"
  by (auto simp: progress_ok_def sorted_append)

lemma progress_ok_cong:
  "progress st' = progress st \<Longrightarrow> completedCount st' = completedCount st \<Longrightarrow>
   totalBlocks st' = totalBlocks st \<Longrightarrow> progress_ok st \<Longrightarrow> progress_ok st'"
  by (simp add: progress_ok_def)

lemma progress_ok_batch_forEach:
  "progress_ok st \<Longrightarrow> progress_ok (batch_forEach parts idx its st)"
proof (induction its arbitrary: idx st)
  case Nil
  then show ?case by simp
next
  case (Cons it its)
  have "progress_ok (updateProgress
          (st\<lparr>chunkCache := (chunkCache st)(raw (block it) \<mapsto>
                 prefix_or_empty (block it) @ batch_translation parts idx it),
              currentRenderedBlocks := js_set (currentRenderedBlocks st) (index it)
                 (prefix_or_empty (block it) @ batch_translation parts idx it)\<rparr>))"
    by (rule progress_ok_updateProgress) (use Cons.prems in \<open>simp add: progress_ok_def\<close>)
  then show ?case by (simp add: Let_def Cons.IH)
qed

lemma progress_ok_step: "progress_ok st \<Longrightarrow> progress_ok (step st ev)"
proof (cases ev)
  case (Delta j d now)
  assume ok: "progress_ok st"
  show ?thesis
    by (rule progress_ok_cong [OF _ _ _ ok])
       (cases "jobs st ! j"; simp add: Delta step.simps processSingle_delta_def Let_def)+
next
  case (Settle j out)
  assume ok: "progress_ok st"
  let ?st1 = "st\<lparr>inflight := remove1 j (inflight st)\<rparr>"
  have ok1: "progress_ok ?st1" using ok by (simp add: progress_ok_def)
  have h: "progress_ok (case jobs st ! j of
                    Batch its \<Rightarrow> processBatch_settled its out ?st1
                  | Single it \<Rightarrow> processSingle_settled it out ?st1)" (is "progress_ok ?h")
  proof (cases "jobs st ! j")
    case (Batch its)
    show ?thesis
    proof (cases out)
      case (Returned t)
      have "progress_ok (batch_forEach (js_split ''<<<BATCH_SEP>>>'' t) 0 its ?st1)"
        by (rule progress_ok_batch_forEach [OF ok1])
      then show ?thesis by (simp add: Batch Returned progress_ok_def)
    next
      case Threw
      then show ?thesis using ok1 by (simp add: Batch)
    qed
  next
    case (Single it)
    show ?thesis
    proof (cases out)
      case (Returned t)
      show ?thesis
      proof (cases "aborted st")
        case True
        then show ?thesis using ok1 by (simp add: Single Returned)
      next
        case False
        have "progress_ok (setDisplayedContent
                   (?st1\<lparr>chunkCache := (chunkCache ?st1)(raw (block it) \<mapsto>
                           single_prefix (block it) @ t @ single_suffix (block it)),
                       currentRenderedBlocks :=
                         js_set (currentRenderedBlocks ?st1) (index it)
                           (single_prefix (block it) @ t @ single_suffix (block it))\<rparr>))"
          using ok1 by (simp add: progress_ok_def)
        from progress_ok_updateProgress [OF this] show ?thesis
          using False by (simp add: Single Returned Let_def)
      qed
    next
      case Threw
      then show ?thesis using ok1 by (simp add: Single)
    qed
  qed
  show ?thesis
  proof (cases "j \<in> set (inflight st)")
    case True
    have "progress_ok (task_finally ?h)"
      by (rule progress_ok_cong [OF _ _ _ h]) simp_all
    then show ?thesis using True by (simp add: Settle step.simps Let_def)
  next
    case False
    then show ?thesis using ok by (simp add: Settle step.simps)
  qed
next
  case Abort
  assume "progress_ok st"
  then show ?thesis by (simp add: Abort step.simps progress_ok_def)
qed

lemma progress_ok_run: "progress_ok st \<Longrightarrow> progress_ok (run st evs)"
  by (induction evs arbitrary: st) (simp_all add: progress_ok_step)

lemma progress_ok_runTranslation: "progress_ok (runTranslation settings cache lu doc)"
  by (simp add: runTranslation_def Let_def progress_ok_def)

text \<open>In every pass the reported \<open>current\<close> never decreases and never exceeds \<open>total\<close>.\<close>

lemma progress_nondecreasing:
  "sorted (map fst (progress (run (runTranslation settings cache lu doc) evs)))"
  "\<forall>p \<in> set (progress (run (runTranslation settings cache lu doc) evs)).
     fst p \<le> snd p \<and> snd p = totalBlocks (runTranslation settings cache lu doc)"
  using progress_ok_run [OF progress_ok_runTranslation, of settings cache lu doc evs]
  by (auto simp: progress_ok_def)

subsection \<open>Progress of a pass whose calls fail\<close>

lemma run_all_Threw:
  "\<forall>ev \<in> set evs. \<exists>j. ev = Settle j Threw \<Longrightarrow>
   progress (run st evs) = progress st \<and> completedCount (run st evs) = completedCount st \<and>
   aborted (run st evs) = aborted st"
  by (induction evs arbitrary: st) auto

text \<open>
  C1. The reported \<open>current\<close> is claimed to end at \<open>total\<close> in every pass, also when every
  job's call fails. In the code a failed job reports nothing: when every call of a pass
  that has something to translate throws, the only report is the first one, whose
  \<open>current\<close> is below \<open>total\<close>, and the test of the completion timer never holds.
\<close>

theorem failed_jobs_never_reach_total:
  assumes stale: "blocksToTranslate cache (parseMarkdownIntoBlocks doc) \<noteq> []"
      and fail: "\<forall>ev \<in> set evs. \<exists>j. ev = Settle j Threw"
  shows "(let st = run (runTranslation settings cache lu doc) evs;
              stale_count = int (length (blocksToTranslate cache (parseMarkdownIntoBlocks doc)))
          in progress st = [(totalBlocks st - stale_count, totalBlocks st)] \<and>
             fst (last (progress st)) < totalBlocks st \<and> \<not> checkDone st)"
  using stale run_all_Threw [OF fail, of "runTranslation settings cache lu doc"]
  by (simp add: Let_def runTranslation_progress runTranslation_fields checkDone_def)

theorem failed_jobs_never_reach_total_witness:
  "(let st = run (runTranslation None Map.empty 0
                    (''hello'' @ [newline] @ fence @ [newline] @ ''x'' @ [newline] @ fence))
                 [Settle 0 Threw, Settle 1 Threw]
    in inflight st = [] \<and> queue (taskQueue st) = [] \<and>
       progress st = [(0, 2)] \<and> fst (last (progress st)) < totalBlocks st \<and> \<not> checkDone st)"
proof -
  let ?doc = "''hello'' @ [newline] @ fence @ [newline] @ ''x'' @ [newline] @ fence"
  let ?evs = "[Settle 0 Threw, Settle 1 Threw]"
  have stale: "blocksToTranslate Map.empty (parseMarkdownIntoBlocks ?doc) \<noteq> []"
    unfolding parse_mixed by (simp add: blocksToTranslate_def with_index_def enumerate_eq_zip)
  have fail: "\<forall>ev \<in> set ?evs. \<exists>j. ev = Settle j Threw"
    by simp
  have idle: "inflight (run (runTranslation None Map.empty 0 ?doc) ?evs) = []"
    "queue (taskQueue (run (runTranslation None Map.empty 0 ?doc) ?evs)) = []"
    unfolding pass_mixed by (simp_all add: step.simps task_finally_def next_task_idle)
  have count: "int (length (blocksToTranslate Map.empty (parseMarkdownIntoBlocks ?doc))) = 2"
    unfolding parse_mixed by (simp add: blocksToTranslate_def with_index_def enumerate_eq_zip)
  have total: "totalBlocks (runTranslation None Map.empty 0 ?doc) = 2"
    unfolding pass_mixed by simp
  show ?thesis
    using failed_jobs_never_reach_total [OF stale fail, of None 0] idle count total
    by (simp add: Let_def)
qed

subsection \<open>Cancellation\<close>

text \<open>
  C2. No result of a cancelled pass is claimed to be written or published. The check after
  the call is there in \<^verbatim>\<open>processSingle\<close> and missing in \<^verbatim>\<open>processBatch\<close>: for the document
  \<open>hello\<close>, cancelled while its batch is awaited, the result that arrives later is written
  to the buffer and to the cache, published, and reported as progress.
\<close>

theorem cancelled_batch_still_writes:
  "(let st0 = runTranslation None Map.empty 0 ''hello'';
        st1 = step st0 Abort;
        st2 = step st1 (Settle 0 (Returned ''HOLA''))
    in inflight st0 = [0] \<and> aborted st1 \<and>
       currentRenderedBlocks st1 = [''hello''] \<and> published st1 = [''hello''] \<and>
       currentRenderedBlocks st2 = [''HOLA''] \<and> published st2 = [''hello'', ''HOLA''] \<and>
       chunkCache st2 ''hello'' = Some ''HOLA'' \<and> progress st2 = [(0, 1), (1, 1)])"
  by (simp add: pass_hello step.simps Let_def js_set_def js_split_def prefix_or_empty_def
      batch_translation_def starts_with_def js_trim_def js_space_def task_finally_def
      next_task_idle)

text \<open>The singleton path, for comparison: once the pass is cancelled it writes nothing.\<close>

lemma cancelled_single_writes_nothing:
  assumes "aborted st" and "jobs st ! j = Single it"
  shows "currentRenderedBlocks (step st (Settle j out)) = currentRenderedBlocks st"
    and "published (step st (Settle j out)) = published st"
    and "chunkCache (step st (Settle j out)) = chunkCache st"
    and "progress (step st (Settle j out)) = progress st"
    and "currentRenderedBlocks (step st (Delta j d now)) = currentRenderedBlocks st"
    and "published (step st (Delta j d now)) = published st"
  using assms by (cases out; simp add: step.simps processSingle_delta_def)+

subsection \<open>Unterminated fence\<close>

lemma scan_inside_unclosed:
  "inCodeBlock st \<Longrightarrow> fence \<notin> set ls \<Longrightarrow>
   inCodeBlock (foldl scan_line st ls) \<and> blocks (foldl scan_line st ls) = blocks st \<and>
   currentTextBuffer (foldl scan_line st ls) = currentTextBuffer st"
  by (induction ls arbitrary: st) (auto simp: scan_line_def codeFenceEnd_test_def)

text \<open>
  C4. An unterminated fence is claimed to give a code block that runs to the end of the
  document. The code flushes the text buffer at the end of the scan and never the code
  buffer: a document \<open>doc\<close> that ends outside a fence, followed by a fence-opening line and
  by any lines none of which closes the fence, has the blocks of \<open>doc\<close> alone.
\<close>

theorem unclosed_fence_dropped:
  assumes outside: "\<not> inCodeBlock (foldl scan_line scan_init (split_newline doc))"
      and fopen: "codeFenceStart_test opener" "newline \<notin> set opener"
      and unclosed: "fence \<notin> set (split_newline body)"
  shows "parseMarkdownIntoBlocks (doc @ [newline] @ opener @ [newline] @ body) =
         parseMarkdownIntoBlocks doc"
proof -
  let ?st = "foldl scan_line scan_init (split_newline doc)"
  let ?st1 = "scan_line ?st opener"
  have lines: "split_newline (doc @ [newline] @ opener @ [newline] @ body) =
               split_newline doc @ opener # split_newline body"
    using fopen(2) by (simp add: split_newline_append split_newline_no_newline)
  have st1: "inCodeBlock ?st1" "blocks ?st1 = blocks (flushTextBuffer ?st)"
    "currentTextBuffer ?st1 = []"
    using outside fopen(1) by (simp_all add: scan_line_def flushTextBuffer_def)
  from scan_inside_unclosed [OF st1(1) unclosed]
  have "blocks (flushTextBuffer (foldl scan_line ?st1 (split_newline body))) =
        blocks (flushTextBuffer ?st)"
    using st1 by (simp add: flushTextBuffer_def)
  then show ?thesis
    using lines by (simp add: parseMarkdownIntoBlocks_def)
qed

theorem unclosed_fence_dropped_witness:
  "parseMarkdownIntoBlocks (''intro'' @ [newline] @ (fence @ ''js'') @ [newline] @ ''const x=1;'') =
     [\<lparr>type = Ttext, content = ''intro'', prefix = None, lang = None, raw = ''intro''\<rparr>]"
proof -
  have a: "\<not> inCodeBlock (foldl scan_line scan_init (split_newline ''intro''))"
    by (simp add: parse_defs)
  have b: "codeFenceStart_test (fence @ ''js'')" "newline \<notin> set (fence @ ''js'')"
    by (simp_all add: parse_defs)
  have c: "fence \<notin> set (split_newline ''const x=1;'')"
    by (simp add: parse_defs)
  have d: "parseMarkdownIntoBlocks ''intro'' =
     [\<lparr>type = Ttext, content = ''intro'', prefix = None, lang = None, raw = ''intro''\<rparr>]"
    by (simp add: parse_defs)
  show ?thesis
    using unclosed_fence_dropped [OF a b c] d by simp
qed

subsection \<open>Highlighting a single annotation\<close>

text \<open>
  C7. For the block text \<open>hello world\<close> and one matching annotation with
  \<^verbatim>\<open>startOffset = 5\<close> and \<^verbatim>\<open>endOffset = 9\<close> the highlighted substring is claimed to be
  \<open>o wo\<close>. The span holds \<^verbatim>\<open>text.slice(5, 9)\<close>, the code units 5 to 8: the highlighted
  substring is \<open> wor\<close>.
\<close>

theorem hello_world_highlight:
  assumes "contextHash a = djb2Hash ''hello world''"
      and "startOffset a = 5" and "endOffset a = 9"
  shows "highlighted (fragments_of (AnnotatedBlock (TextNode ''hello world'') [a])) = ['' wor'']"
  using assms
  by (simp add: AnnotatedBlock_def highlight_string_def relevant_def Let_def
      js_slice_def js_slice_from_def slice_index_def)

theorem hello_world_highlight_witness:
  "highlighted (fragments_of (AnnotatedBlock (TextNode ''hello world'')
     [\<lparr>ann_id = ''1'', ann_text = '' wor'', ann_note = ''remark'', timestamp = 0,
       contextHash = djb2Hash ''hello world'', startOffset = 5, endOffset = 9\<rparr>])) = ['' wor'']"
  using hello_world_highlight
    [of "\<lparr>ann_id = ''1'', ann_text = '' wor'', ann_note = ''remark'', timestamp = 0,
       contextHash = djb2Hash ''hello world'', startOffset = 5, endOffset = 9\<rparr>"]
  by simp

theorem hello_world_highlight_counterexample:
  "highlighted (fragments_of (AnnotatedBlock (TextNode ''hello world'')
     [\<lparr>ann_id = ''1'', ann_text = ''o wo'', ann_note = ''remark'', timestamp = 0,
       contextHash = djb2Hash ''hello world'', startOffset = 5, endOffset = 9\<rparr>])) \<noteq> [''o wo'']"
  by (simp add: AnnotatedBlock_def highlight_string_def relevant_def Let_def
      js_slice_def js_slice_from_def slice_index_def)

subsection \<open>Bounded concurrency\<close>

lemma tq_next_Some:
  "snd (tq_next q) = Some t \<Longrightarrow>
   active q < concurrency q \<and> queue q \<noteq> [] \<and> t = hd (queue q) \<and>
   fst (tq_next q) = q\<lparr>queue := tl (queue q), active := active q + 1\<rparr>"
  by (auto simp: tq_next_def split: if_splits)

lemma tq_next_None:
  "snd (tq_next q) = None \<Longrightarrow> fst (tq_next q) = q"
  by (auto simp: tq_next_def split: if_splits)

lemma added_append [simp]: "added (evs @ evs') = added evs @ added evs'"
  by (induction evs rule: added.induct) auto

text \<open>
  The invariant of a run of the queue: \<^verbatim>\<open>active\<close> counts the running tasks and, for a
  limit that is not negative, stays within it; the tasks started and the tasks still queued
  are, in this order, the tasks added.
\<close>

lemma tq_run_invariant:
  fixes evs :: "'a tq_event list"
  assumes "0 \<le> c"
  shows "concurrency (tq (foldl tq_step (tq_init c) evs)) = c \<and>
         active (tq (foldl tq_step (tq_init c) evs)) =
           int (length (running (foldl tq_step (tq_init c) evs))) \<and>
         active (tq (foldl tq_step (tq_init c) evs)) \<le> c \<and>
         started (foldl tq_step (tq_init c) evs) @ queue (tq (foldl tq_step (tq_init c) evs)) =
           added evs"
proof (induction evs rule: rev_induct)
  case Nil
  show ?case using assms by (simp add: tq_init_def tq_new_def)
next
  case (snoc ev evs)
  let ?r = "foldl tq_step (tq_init c) evs"
  from snoc have inv: "concurrency (tq ?r) = c" "active (tq ?r) = int (length (running ?r))"
    "active (tq ?r) \<le> c" "started ?r @ queue (tq ?r) = added evs"
    by simp_all
  show ?case
  proof (cases ev)
    case (Add t)
    show ?thesis
    proof (cases "snd (tq_add (tq ?r) t)")
      case None
      then have "fst (tq_add (tq ?r) t) = (tq ?r)\<lparr>queue := queue (tq ?r) @ [t]\<rparr>"
        by (simp add: tq_add_def tq_next_None)
      with None inv Add show ?thesis
        by (simp add: tq_started_def)
    next
      case (Some u)
      from tq_next_Some [OF Some [unfolded tq_add_def]] inv Some Add show ?thesis
        by (cases "queue (tq ?r)") (auto simp: tq_started_def tq_add_def)
    qed
  next
    case (Settled t)
    show ?thesis
    proof (cases "t \<in> set (running ?r)")
      case False
      with inv Settled show ?thesis by simp
    next
      case True
      then have "0 < length (running ?r)"
        by (auto simp: length_pos_if_in_set)
      with True have len:
        "int (length (remove1 t (running ?r))) = int (length (running ?r)) - 1"
        by (simp add: length_remove1 of_nat_diff Suc_leI)
      show ?thesis
      proof (cases "snd (tq_finally (tq ?r))")
        case None
        then have "fst (tq_finally (tq ?r)) = (tq ?r)\<lparr>active := active (tq ?r) - 1\<rparr>"
          by (simp add: tq_finally_def tq_next_None)
        with None inv Settled True len show ?thesis
          by (simp add: tq_started_def)
      next
        case (Some u)
        from tq_next_Some [OF Some [unfolded tq_finally_def]] inv Some Settled True len
        show ?thesis
          by (cases "queue (tq ?r)") (auto simp: tq_started_def tq_finally_def)
      qed
    qed
  qed
qed

text \<open>
  C10. With a configured concurrency that is not negative (zero or a missing value gives
  the default 3), at every point of every run of the queue the number of running tasks is
  \<^verbatim>\<open>active\<close> and is at most the limit; \<^verbatim>\<open>next\<close> starts a task only while \<^verbatim>\<open>active\<close> is
  strictly below the limit, and the task it starts is the head of the queue, so that tasks
  start in the order in which they were added.
\<close>

theorem task_queue_bounded:
  fixes evs :: "'a tq_event list"
  assumes "case settings of None \<Rightarrow> True | Some s \<Rightarrow> 0 \<le> cfg_concurrency s"
  shows "(let c = concurrency_of settings; r = foldl tq_step (tq_init c) evs
          in 1 \<le> c \<and> (settings = None \<longrightarrow> c = 3) \<and>
             int (length (running r)) = active (tq r) \<and> active (tq r) \<le> c \<and>
             started r @ queue (tq r) = added evs \<and>
             (\<forall>(q :: 'a TaskQueue) t. snd (tq_next q) = Some t \<longrightarrow>
                 active q < concurrency q \<and> t = hd (queue q)))"
proof -
  have c: "1 \<le> concurrency_of settings" "settings = None \<longrightarrow> concurrency_of settings = 3"
    using assms by (auto simp: concurrency_of_def split: option.splits)
  then have "0 \<le> concurrency_of settings" by simp
  from tq_run_invariant [OF this, of evs] c show ?thesis
    by (auto simp: Let_def dest: tq_next_Some)
qed

theorem task_queue_bounded_witness:
  "(let r = foldl tq_step (tq_init (concurrency_of (Some \<lparr>cfg_concurrency = 1, cfg_batchSize = 10\<rparr>)))
              [Add (10::nat), Add 20, Settled 10]
    in running r = [20] \<and> active (tq r) = 1 \<and> started r = [10, 20] \<and> queue (tq r) = [])"
proof -
  have r1: "tq_step (tq_init 1) (Add (10::nat)) =
      \<lparr>tq = \<lparr>queue = [], active = 1, concurrency = 1\<rparr>, running = [10], started = [10]\<rparr>"
    by (simp add: tq_init_def tq_new_def tq_started_def tq_add_def tq_next_def)
  have r2: "tq_step \<lparr>tq = \<lparr>queue = [], active = 1, concurrency = 1\<rparr>, running = [10], started = [10]\<rparr>
      (Add (20::nat)) =
      \<lparr>tq = \<lparr>queue = [20], active = 1, concurrency = 1\<rparr>, running = [10], started = [10]\<rparr>"
    by (simp add: tq_started_def tq_add_def tq_next_def)
  have r3: "tq_step \<lparr>tq = \<lparr>queue = [20], active = 1, concurrency = 1\<rparr>, running = [10], started = [10]\<rparr>
      (Settled (10::nat)) =
      \<lparr>tq = \<lparr>queue = [], active = 1, concurrency = 1\<rparr>, running = [20], started = [10, 20]\<rparr>"
    by (simp add: tq_started_def tq_finally_def tq_next_def)
  have c: "concurrency_of (Some \<lparr>cfg_concurrency = 1, cfg_batchSize = 10\<rparr>) = 1"
    by (simp add: concurrency_of_def)
  have "case Some \<lparr>cfg_concurrency = 1, cfg_batchSize = 10\<rparr> of
          None \<Rightarrow> True | Some s \<Rightarrow> 0 \<le> cfg_concurrency s"
    by simp
  from task_queue_bounded [OF this, of "[Add (10::nat), Add 20, Settled 10]"]
  show ?thesis
    by (simp add: Let_def c r1 r2 r3 del: tq_step.simps)
qed

subsection \<open>Jobs and slots\<close>

lemma make_batches_items:
  "concat (map job_items (make_batches batchSize cur its)) = cur @ its"
  by (induction its arbitrary: cur) (auto simp: Let_def)

lemma with_index_index: "map index (with_index bs) = [0..<length bs]"
proof -
  have "index \<circ> (\<lambda>(i, b). \<lparr>block = b, index = i\<rparr>) = fst"
    by (simp add: fun_eq_iff)
  then show ?thesis
    by (simp add: with_index_def)
qed

lemma with_index_block:
  "it \<in> set (with_index bs) \<Longrightarrow> index it < length bs \<and> block it = bs ! index it"
  by (auto simp: with_index_def in_set_enumerate_eq)

lemma blocksToTranslate_item:
  "it \<in> set (blocksToTranslate cache bs) \<Longrightarrow>
   index it < length bs \<and> block it = bs ! index it \<and> type (block it) \<noteq> Tempty \<and>
   cache (raw (block it)) = None"
  by (auto simp: blocksToTranslate_def dest: with_index_block)

lemma blocksToTranslate_distinct: "distinct (map index (blocksToTranslate cache bs))"
  unfolding blocksToTranslate_def
  by (rule distinct_map_filter) (simp add: with_index_index)

lemma length_initialRenderedBlocks [simp]:
  "length (initialRenderedBlocks cache bs) = length bs"
  by (simp add: initialRenderedBlocks_def)


lemma runTranslation_items:
  "concat (map job_items (jobs (runTranslation settings cache lu doc))) =
     blocksToTranslate cache (parseMarkdownIntoBlocks doc)"
  by (simp add: runTranslation_jobs make_batches_items)

lemma job_item_stale:
  assumes "jb \<in> set (jobs (runTranslation settings cache lu doc))" and "it \<in> set (job_items jb)"
  shows "it \<in> set (blocksToTranslate cache (parseMarkdownIntoBlocks doc))"
proof -
  from assms have "it \<in> set (concat (map job_items (jobs (runTranslation settings cache lu doc))))"
    by auto
  then show ?thesis by (simp only: runTranslation_items)
qed



lemma pass_inv_slot:
  "pass_inv st \<Longrightarrow> j < length (jobs st) \<Longrightarrow> it \<in> set (job_items (jobs st ! j)) \<Longrightarrow>
   index it < length (currentRenderedBlocks st)"
  by (auto simp: pass_inv_def)

lemma pass_inv_inflight:
  "pass_inv st \<Longrightarrow> j \<in> set (inflight st) \<Longrightarrow> j < length (jobs st)"
  by (auto simp: pass_inv_def)

subsection \<open>Writes of a batch\<close>

lemma js_set_in_range [simp]: "i < length xs \<Longrightarrow> js_set xs i v = xs[i := v]"
  by (simp add: js_set_def)

lemma batch_forEach_length:
  "\<forall>it \<in> set its. index it < length (currentRenderedBlocks st) \<Longrightarrow>
   length (currentRenderedBlocks (batch_forEach parts idx its st)) =
     length (currentRenderedBlocks st)"
  by (induction its arbitrary: idx st) (auto simp: Let_def)

lemma batch_forEach_other:
  "\<forall>it \<in> set its. index it < length (currentRenderedBlocks st) \<Longrightarrow>
   i \<notin> index ` set its \<Longrightarrow>
   currentRenderedBlocks (batch_forEach parts idx its st) ! i = currentRenderedBlocks st ! i"
  by (induction its arbitrary: idx st) (auto simp: Let_def)

lemma batch_forEach_at:
  "\<forall>it \<in> set its. index it < length (currentRenderedBlocks st) \<Longrightarrow>
   distinct (map index its) \<Longrightarrow> k < length its \<Longrightarrow>
   currentRenderedBlocks (batch_forEach parts idx its st) ! index (its ! k) =
     prefix_or_empty (block (its ! k)) @ batch_translation parts (idx + k) (its ! k)"
proof (induction its arbitrary: idx st k)
  case Nil
  then show ?case by simp
next
  case (Cons it its)
  let ?st1 = "updateProgress
      (st\<lparr>chunkCache := (chunkCache st)(raw (block it) \<mapsto>
              prefix_or_empty (block it) @ batch_translation parts idx it),
           currentRenderedBlocks := js_set (currentRenderedBlocks st) (index it)
              (prefix_or_empty (block it) @ batch_translation parts idx it)\<rparr>)"
  have range: "\<forall>it' \<in> set its. index it' < length (currentRenderedBlocks ?st1)"
    using Cons.prems(1) by simp
  show ?case
  proof (cases k)
    case 0
    have "index it \<notin> index ` set its"
      using Cons.prems(2) by auto
    from batch_forEach_other [OF range this, of parts "Suc idx"] Cons.prems(1) 0
    show ?thesis by (simp add: Let_def)
  next
    case (Suc k')
    with Cons.prems have "k' < length its" "distinct (map index its)"
      by simp_all
    from Cons.IH [OF range this(2) this(1), of "Suc idx"] Suc
    show ?thesis by (simp add: Let_def)
  qed
qed

lemma batch_forEach_cache_keeps:
  "chunkCache st r \<noteq> None \<Longrightarrow> chunkCache (batch_forEach parts idx its st) r \<noteq> None"
  by (induction its arbitrary: idx st) (auto simp: Let_def)

lemma batch_forEach_cache_puts:
  "it \<in> set its \<Longrightarrow> chunkCache (batch_forEach parts idx its st) (raw (block it)) \<noteq> None"
proof (induction its arbitrary: idx st)
  case Nil
  then show ?case by simp
next
  case (Cons a its)
  let ?st1 = "updateProgress
      (st\<lparr>chunkCache := (chunkCache st)(raw (block a) \<mapsto>
              prefix_or_empty (block a) @ batch_translation parts idx a),
           currentRenderedBlocks := js_set (currentRenderedBlocks st) (index a)
              (prefix_or_empty (block a) @ batch_translation parts idx a)\<rparr>)"
  show ?case
  proof (cases "it = a")
    case True
    have "chunkCache ?st1 (raw (block a)) \<noteq> None"
      by simp
    from batch_forEach_cache_keeps [OF this, of parts "Suc idx" its] True
    show ?thesis by (simp add: Let_def)
  next
    case False
    with Cons.prems have "it \<in> set its" by simp
    from Cons.IH [OF this, of "Suc idx" ?st1]
    show ?thesis by (simp add: Let_def)
  qed
qed

subsection \<open>The invariant of a pass\<close>

lemma next_task_ids:
  "set (inflight (next_task st)) \<union> set (queue (taskQueue (next_task st))) \<subseteq>
   set (inflight st) \<union> set (queue (taskQueue st))"
proof (induction st rule: next_task_induct)
  case (idle st)
  show ?case
    by (subst (1 2) next_task_idle [OF idle]) simp
next
  case (issue st)
  have i: "inflight (next_task st) = inflight st @ [hd (queue (taskQueue st))]"
    by (subst next_task_issue [OF issue]) simp
  have q: "queue (taskQueue (next_task st)) = tl (queue (taskQueue st))"
    by (subst next_task_issue [OF issue]) simp
  obtain a l where "queue (taskQueue st) = a # l"
    using issue(3) by (cases "queue (taskQueue st)") auto
  then show ?case
    by (simp add: i q)
next
  case (skip st)
  obtain a l where "queue (taskQueue st) = a # l"
    using skip(3) by (cases "queue (taskQueue st)") auto
  with skip(4) show ?case
    by (subst (1 2) next_task_skip [OF skip(1-3)]) auto
qed

lemma add_task_ids:
  "set (inflight (add_task st j)) \<union> set (queue (taskQueue (add_task st j))) \<subseteq>
   insert j (set (inflight st) \<union> set (queue (taskQueue st)))"
  using next_task_ids [of "st\<lparr>taskQueue := (taskQueue st)\<lparr>queue := queue (taskQueue st) @ [j]\<rparr>\<rparr>"]
  by (auto simp: add_task_def)

lemma foldl_add_task_ids:
  "set (inflight (foldl add_task st js)) \<union> set (queue (taskQueue (foldl add_task st js))) \<subseteq>
   set js \<union> set (inflight st) \<union> set (queue (taskQueue st))"
proof (induction js arbitrary: st)
  case Nil
  then show ?case by simp
next
  case (Cons j js)
  from Cons [of "add_task st j"] add_task_ids [of st j] show ?case by auto
qed

lemma runTranslation_ids:
  "set (inflight (runTranslation settings cache lu doc)) \<union>
   set (queue (taskQueue (runTranslation settings cache lu doc))) \<subseteq>
   {..<length (jobs (runTranslation settings cache lu doc))}"
proof (cases "blocksToTranslate cache (parseMarkdownIntoBlocks doc) = []")
  case True
  then show ?thesis by (simp add: runTranslation_def Let_def tq_new_def)
next
  case False
  let ?bs = "make_batches (batchSize_of settings) []
               (blocksToTranslate cache (parseMarkdownIntoBlocks doc))"
  have "jobs (runTranslation settings cache lu doc) = ?bs"
    by (rule runTranslation_jobs)
  moreover have "runTranslation settings cache lu doc =
      foldl add_task
        (\<lparr>jobs = [], taskQueue = tq_new (concurrency_of settings), inflight = [],
           requests = [], accumulatedStream = (\<lambda>j. []),
           currentRenderedBlocks = initialRenderedBlocks cache (parseMarkdownIntoBlocks doc),
           chunkCache = cache,
           completedCount =
             int (length (filter (\<lambda>b. type b \<noteq> Tempty) (parseMarkdownIntoBlocks doc))) -
             int (length (blocksToTranslate cache (parseMarkdownIntoBlocks doc))),
           totalBlocks =
             int (length (filter (\<lambda>b. type b \<noteq> Tempty) (parseMarkdownIntoBlocks doc))),
           aborted = False, lastUpdate = lu,
           published = [js_join [newline]
                          (initialRenderedBlocks cache (parseMarkdownIntoBlocks doc))],
           progress = []\<rparr>
         \<lparr>jobs := ?bs,
           progress :=
             [(int (length (filter (\<lambda>b. type b \<noteq> Tempty) (parseMarkdownIntoBlocks doc))) -
               int (length (blocksToTranslate cache (parseMarkdownIntoBlocks doc))),
               int (length (filter (\<lambda>b. type b \<noteq> Tempty) (parseMarkdownIntoBlocks doc))))]\<rparr>)
        [0..<length ?bs]" (is "_ = foldl add_task ?st1 _")
    using False by (simp add: runTranslation_def Let_def)
  moreover have "set (inflight ?st1) \<union> set (queue (taskQueue ?st1)) = {}"
    by (simp add: tq_new_def)
  ultimately show ?thesis
    using foldl_add_task_ids [of ?st1 "[0..<length ?bs]"] by auto
qed

lemma pass_inv_runTranslation: "pass_inv (runTranslation settings cache lu doc)"
proof -
  let ?st = "runTranslation settings cache lu doc"
  have "\<forall>jb \<in> set (jobs ?st). \<forall>it \<in> set (job_items jb).
          index it < length (currentRenderedBlocks ?st)"
    by (auto simp: runTranslation_fields dest!: job_item_stale blocksToTranslate_item)
  moreover have "distinct (map index (concat (map job_items (jobs ?st))))"
    by (simp only: runTranslation_items blocksToTranslate_distinct)
  ultimately show ?thesis
    using runTranslation_ids [of settings cache lu doc] by (auto simp: pass_inv_def)
qed

lemma settled_frame [simp]:
  "jobs (processBatch_settled its out st) = jobs st"
  "inflight (processBatch_settled its out st) = inflight st"
  "taskQueue (processBatch_settled its out st) = taskQueue st"
  "aborted (processBatch_settled its out st) = aborted st"
  "jobs (processSingle_settled it out st) = jobs st"
  "inflight (processSingle_settled it out st) = inflight st"
  "taskQueue (processSingle_settled it out st) = taskQueue st"
  "aborted (processSingle_settled it out st) = aborted st"
  by (cases out; simp add: Let_def)+

lemma delta_frame [simp]:
  "jobs (processSingle_delta j it d now st) = jobs st"
  "inflight (processSingle_delta j it d now st) = inflight st"
  "taskQueue (processSingle_delta j it d now st) = taskQueue st"
  "aborted (processSingle_delta j it d now st) = aborted st"
  "chunkCache (processSingle_delta j it d now st) = chunkCache st"
  "progress (processSingle_delta j it d now st) = progress st"
  "completedCount (processSingle_delta j it d now st) = completedCount st"
  by (simp_all add: processSingle_delta_def Let_def)

lemma task_finally_ids:
  "set (inflight (task_finally st)) \<union> set (queue (taskQueue (task_finally st))) \<subseteq>
   set (inflight st) \<union> set (queue (taskQueue st))"
  using next_task_ids [of "st\<lparr>taskQueue := (taskQueue st)\<lparr>active := active (taskQueue st) - 1\<rparr>\<rparr>"]
  by (simp add: task_finally_def)

lemma step_ids:
  "set (inflight (step st ev)) \<union> set (queue (taskQueue (step st ev))) \<subseteq>
   set (inflight st) \<union> set (queue (taskQueue st))"
proof (cases ev)
  case (Delta j d now)
  then show ?thesis by (cases "jobs st ! j") (auto simp: step.simps)
next
  case (Settle j out)
  show ?thesis
  proof (cases "j \<in> set (inflight st)")
    case True
    let ?st1 = "st\<lparr>inflight := remove1 j (inflight st)\<rparr>"
    let ?h = "case jobs st ! j of Batch its \<Rightarrow> processBatch_settled its out ?st1
              | Single it \<Rightarrow> processSingle_settled it out ?st1"
    have "inflight ?h = remove1 j (inflight st)" "taskQueue ?h = taskQueue st"
      by (cases "jobs st ! j"; simp)+
    with task_finally_ids [of ?h]
    have "set (inflight (task_finally ?h)) \<union> set (queue (taskQueue (task_finally ?h))) \<subseteq>
          set (remove1 j (inflight st)) \<union> set (queue (taskQueue st))"
      by simp
    moreover have "set (remove1 j (inflight st)) \<subseteq> set (inflight st)"
      by (rule set_remove1_subset)
    moreover have "step st ev = task_finally ?h"
      using True Settle by (simp add: step.simps Let_def)
    ultimately show ?thesis
      by (simp only:) blast
  next
    case False
    with Settle show ?thesis by (simp add: step.simps)
  qed
next
  case Abort
  then show ?thesis by (simp add: step.simps)
qed

lemma single_settled_length:
  "index it < length (currentRenderedBlocks st) \<Longrightarrow>
   length (currentRenderedBlocks (processSingle_settled it out st)) =
     length (currentRenderedBlocks st)"
  by (cases out) (simp_all add: Let_def)

lemma batch_settled_length:
  "\<forall>it \<in> set its. index it < length (currentRenderedBlocks st) \<Longrightarrow>
   length (currentRenderedBlocks (processBatch_settled its out st)) =
     length (currentRenderedBlocks st)"
  by (cases out) (simp_all add: batch_forEach_length)

lemma delta_length:
  "index it < length (currentRenderedBlocks st) \<Longrightarrow>
   length (currentRenderedBlocks (processSingle_delta j it d now st)) =
     length (currentRenderedBlocks st)"
  by (simp add: processSingle_delta_def Let_def)

lemma step_length:
  assumes "pass_inv st"
  shows "length (currentRenderedBlocks (step st ev)) = length (currentRenderedBlocks st)"
proof (cases ev)
  case (Delta j d now)
  show ?thesis
  proof (cases "j \<in> set (inflight st)")
    case True
    with assms have "\<forall>it \<in> set (job_items (jobs st ! j)).
        index it < length (currentRenderedBlocks st)"
      by (auto dest: pass_inv_inflight pass_inv_slot)
    with True Delta show ?thesis
      by (cases "jobs st ! j") (simp_all add: step.simps delta_length)
  next
    case False
    with Delta show ?thesis by (simp add: step.simps)
  qed
next
  case (Settle j out)
  show ?thesis
  proof (cases "j \<in> set (inflight st)")
    case True
    with assms have "\<forall>it \<in> set (job_items (jobs st ! j)).
        index it < length (currentRenderedBlocks st)"
      by (auto dest: pass_inv_inflight pass_inv_slot)
    with True Settle show ?thesis
      by (cases "jobs st ! j")
         (simp_all add: step.simps Let_def batch_settled_length single_settled_length)
  next
    case False
    with Settle show ?thesis by (simp add: step.simps)
  qed
next
  case Abort
  then show ?thesis by (simp add: step.simps)
qed

lemma pass_inv_step: "pass_inv st \<Longrightarrow> pass_inv (step st ev)"
  using step_ids [of st ev] step_length [of st ev]
  by (auto simp: pass_inv_def)

lemma pass_inv_run: "pass_inv st \<Longrightarrow> pass_inv (run st evs)"
  by (induction evs arbitrary: st) (auto intro: pass_inv_step)

subsection \<open>Which slots an event writes\<close>


lemma step_Abort [simp]:
  "currentRenderedBlocks (step st Abort) = currentRenderedBlocks st"
  "chunkCache (step st Abort) = chunkCache st"
  "published (step st Abort) = published st"
  by (simp_all add: step.simps)



subsection \<open>The cache during a pass\<close>

lemma step_cache_keeps:
  assumes "chunkCache st r \<noteq> None"
  shows "chunkCache (step st ev) r \<noteq> None"
proof (cases ev)
  case (Delta j d now)
  with assms show ?thesis by (cases "jobs st ! j") (auto simp: step.simps)
next
  case (Settle j out)
  have "chunkCache (st\<lparr>inflight := remove1 j (inflight st)\<rparr>) r \<noteq> None"
    using assms by simp
  from batch_forEach_cache_keeps [OF this] assms Settle show ?thesis
    by (cases "jobs st ! j"; cases out) (auto simp: step.simps Let_def)
next
  case Abort
  with assms show ?thesis by (simp add: step.simps)
qed

lemma run_cache_keeps:
  "chunkCache st r \<noteq> None \<Longrightarrow> chunkCache (run st evs) r \<noteq> None"
proof (induction evs arbitrary: st)
  case Nil
  then show ?case by simp
next
  case (Cons ev evs)
  from Cons.IH [OF step_cache_keeps [OF Cons.prems]] show ?case by simp
qed

lemma step_Returned_caches:
  assumes "j \<in> set (inflight st)" and "it \<in> set (job_items (jobs st ! j))"
      and "(\<exists>it'. jobs st ! j = Single it') \<longrightarrow> \<not> aborted st"
  shows "chunkCache (step st (Settle j (Returned t))) (raw (block it)) \<noteq> None"
proof (cases "jobs st ! j")
  case (Batch its)
  with assms show ?thesis
    by (simp add: step.simps Let_def batch_forEach_cache_puts)
next
  case (Single it')
  with assms show ?thesis
    by (simp add: step.simps Let_def)
qed

subsection \<open>More sample passes\<close>




lemma parse_twins:
  "parseMarkdownIntoBlocks (fence @ [newline] @ ''x'' @ [newline] @ fence @ [newline] @
                            fence @ [newline] @ ''x'' @ [newline] @ fence) =
     [\<lparr>type = Tcode, content = ''x'', prefix = None, lang = Some [],
       raw = fence @ [newline] @ ''x'' @ [newline] @ fence\<rparr>,
      \<lparr>type = Tcode, content = ''x'', prefix = None, lang = Some [],
       raw = fence @ [newline] @ ''x'' @ [newline] @ fence\<rparr>]"
  by (simp add: parse_defs)

lemma pass_twins:
  "runTranslation None Map.empty 0 (fence @ [newline] @ ''x'' @ [newline] @ fence @ [newline] @
                                    fence @ [newline] @ ''x'' @ [newline] @ fence) =
     \<lparr>jobs = [Single \<lparr>block = \<lparr>type = Tcode, content = ''x'', prefix = None, lang = Some [],
                                 raw = fence @ [newline] @ ''x'' @ [newline] @ fence\<rparr>,
                       index = 0\<rparr>,
              Single \<lparr>block = \<lparr>type = Tcode, content = ''x'', prefix = None, lang = Some [],
                                 raw = fence @ [newline] @ ''x'' @ [newline] @ fence\<rparr>,
                       index = 1\<rparr>],
      taskQueue = \<lparr>queue = [], active = 2, concurrency = 3\<rparr>, inflight = [0, 1],
      requests = [''x'', ''x''], accumulatedStream = (\<lambda>j. []),
      currentRenderedBlocks = [fence @ [newline] @ ''x'' @ [newline] @ fence,
                               fence @ [newline] @ ''x'' @ [newline] @ fence],
      chunkCache = Map.empty,
      completedCount = 0, totalBlocks = 2, aborted = False, lastUpdate = 0,
      published = [fence @ [newline] @ ''x'' @ [newline] @ fence @ [newline] @
                   fence @ [newline] @ ''x'' @ [newline] @ fence],
      progress = [(0, 2)]\<rparr>"
  unfolding runTranslation_def parse_twins
  by (simp add: blocksToTranslate_def with_index_def enumerate_eq_zip initialRenderedBlocks_def
      batchSize_of_def concurrency_of_def tq_new_def Let_def add_task_def next_task_issue
      fun_eq_iff upt_rec [of 0])

lemma parse_abc:
  "parseMarkdownIntoBlocks (''a'' @ [newline, newline] @ ''b'' @ [newline, newline] @ ''c'') =
     [\<lparr>type = Ttext, content = ''a'', prefix = None, lang = None, raw = ''a''\<rparr>,
      \<lparr>type = Tempty, content = [], prefix = None, lang = None, raw = []\<rparr>,
      \<lparr>type = Ttext, content = ''b'', prefix = None, lang = None, raw = ''b''\<rparr>,
      \<lparr>type = Tempty, content = [], prefix = None, lang = None, raw = []\<rparr>,
      \<lparr>type = Ttext, content = ''c'', prefix = None, lang = None, raw = ''c''\<rparr>]"
  by (simp add: parse_defs)

lemma pass_abc:
  "runTranslation None Map.empty 0 (''a'' @ [newline, newline] @ ''b'' @ [newline, newline] @ ''c'') =
     \<lparr>jobs = [Batch
         [\<lparr>block = \<lparr>type = Ttext, content = ''a'', prefix = None, lang = None, raw = ''a''\<rparr>,
            index = 0\<rparr>,
          \<lparr>block = \<lparr>type = Ttext, content = ''b'', prefix = None, lang = None, raw = ''b''\<rparr>,
            index = 2\<rparr>,
          \<lparr>block = \<lparr>type = Ttext, content = ''c'', prefix = None, lang = None, raw = ''c''\<rparr>,
            index = 4\<rparr>]],
      taskQueue = \<lparr>queue = [], active = 1, concurrency = 3\<rparr>, inflight = [0],
      requests = [''a'' @ delimiter @ ''b'' @ delimiter @ ''c''],
      accumulatedStream = (\<lambda>j. []),
      currentRenderedBlocks = [''a'', [], ''b'', [], ''c''],
      chunkCache = Map.empty,
      completedCount = 0, totalBlocks = 3, aborted = False, lastUpdate = 0,
      published = [''a'' @ [newline, newline] @ ''b'' @ [newline, newline] @ ''c''],
      progress = [(0, 3)]\<rparr>"
  unfolding runTranslation_def parse_abc
  by (simp add: blocksToTranslate_def with_index_def enumerate_eq_zip initialRenderedBlocks_def
      batchSize_of_def concurrency_of_def tq_new_def Let_def add_task_def next_task_issue
      fun_eq_iff upt_rec [of 0] upt_rec [of 1] upt_rec [of 2] upt_rec [of 3] upt_rec [of 4])

subsection \<open>Missing parts of a batch\<close>

lemma flushTextBuffer_text_shape:
  "\<forall>b \<in> set (blocks st). type b = Ttext \<longrightarrow> prefix b = None \<and> content b = raw b \<Longrightarrow>
   \<forall>b \<in> set (blocks (flushTextBuffer st)). type b = Ttext \<longrightarrow> prefix b = None \<and> content b = raw b"
  by (auto simp: flushTextBuffer_def)

lemma scan_line_text_shape:
  assumes "\<forall>b \<in> set (blocks st). type b = Ttext \<longrightarrow> prefix b = None \<and> content b = raw b"
  shows "\<forall>b \<in> set (blocks (scan_line st l)).
           type b = Ttext \<longrightarrow> prefix b = None \<and> content b = raw b"
  using assms flushTextBuffer_text_shape [OF assms]
  by (auto simp: scan_line_def Let_def split: option.splits)

lemma foldl_scan_line_text_shape:
  "\<forall>b \<in> set (blocks st). type b = Ttext \<longrightarrow> prefix b = None \<and> content b = raw b \<Longrightarrow>
   \<forall>b \<in> set (blocks (foldl scan_line st ls)).
      type b = Ttext \<longrightarrow> prefix b = None \<and> content b = raw b"
proof (induction ls arbitrary: st)
  case Nil
  then show ?case by simp
next
  case (Cons l ls)
  from Cons.IH [OF scan_line_text_shape [OF Cons.prems]] show ?case by simp
qed

text \<open>A text block of the segmenter has no prefix, and its content is its raw text.\<close>

lemma parse_text_blocks:
  assumes "b \<in> set (parseMarkdownIntoBlocks doc)" and "type b = Ttext"
  shows "prefix b = None \<and> content b = raw b"
proof -
  have "\<forall>b \<in> set (blocks scan_init). type b = Ttext \<longrightarrow> prefix b = None \<and> content b = raw b"
    by (simp add: scan_init_def)
  from flushTextBuffer_text_shape [OF foldl_scan_line_text_shape [OF this]] assms
  show ?thesis
    by (auto simp: parseMarkdownIntoBlocks_def)
qed

lemma pass_inv_job_distinct:
  assumes "pass_inv st" and "jb \<in> set (jobs st)"
  shows "distinct (map index (job_items jb))"
proof -
  have "map index (concat (map job_items (jobs st))) =
        concat (map (\<lambda>jb. map index (job_items jb)) (jobs st))"
    by (simp add: map_concat comp_def)
  with assms(1) have "distinct (concat (map (\<lambda>jb. map index (job_items jb)) (jobs st)))"
    by (simp add: pass_inv_def)
  with assms(2) show ?thesis
    by (auto simp: distinct_concat_iff)
qed

text \<open>
  C5. In any state of any pass, let the call of an awaited batch of \<open>n\<close> items return a text
  that splits into fewer than \<open>n\<close> parts. Then the batch is handled as a whole: every item
  is written and counted and the document is published; the slot of each item gets the
  item's prefix and its translation; and for each item beyond the parts the translation
  is the item's original content, which for a text block is its raw text.
\<close>

theorem batch_missing_parts_keep_original:
  assumes reach: "st = run (runTranslation settings cache lu doc) evs"
      and job: "j \<in> set (inflight st)" "jobs st ! j = Batch its"
      and parts: "parts = js_split ''<<<BATCH_SEP>>>'' translatedTextFull"
                 "length parts < length its"
      and k: "length parts \<le> k" "k < length its"
  shows "(let st' = step st (Settle j (Returned translatedTextFull)); it = its ! k
          in (\<forall>i < length its. currentRenderedBlocks st' ! index (its ! i) =
                 prefix_or_empty (block (its ! i)) @ batch_translation parts i (its ! i)) \<and>
             batch_translation parts k it = content (block it) \<and>
             currentRenderedBlocks st' ! index it = prefix_or_empty (block it) @ content (block it) \<and>
             (type (block it) = Ttext \<longrightarrow> currentRenderedBlocks st' ! index it = raw (block it)) \<and>
             completedCount st' = completedCount st + int (length its) \<and>
             published st' = published st @ [js_join [newline] (currentRenderedBlocks st')])"
proof -
  let ?st0 = "runTranslation settings cache lu doc"
  let ?st1 = "st\<lparr>inflight := remove1 j (inflight st)\<rparr>"
  let ?st' = "step st (Settle j (Returned translatedTextFull))"
  have inv: "pass_inv st"
    unfolding reach by (intro pass_inv_run pass_inv_runTranslation)
  from inv job(1) have j: "j < length (jobs st)"
    by (rule pass_inv_inflight)
  with job(2) have jb: "Batch its \<in> set (jobs st)"
    by (metis nth_mem)
  have range: "\<forall>it \<in> set its. index it < length (currentRenderedBlocks ?st1)"
    using pass_inv_slot [OF inv j] job(2) by simp
  have dist: "distinct (map index its)"
    using pass_inv_job_distinct [OF inv jb] by simp
  have step: "?st' = task_finally (setDisplayedContent (batch_forEach parts 0 its ?st1))"
    using job parts(1) by (simp add: step.simps Let_def)
  have slot: "currentRenderedBlocks ?st' ! index (its ! i) =
      prefix_or_empty (block (its ! i)) @ batch_translation parts i (its ! i)"
    if "i < length its" for i
    using batch_forEach_at [OF range dist that, of parts 0] by (simp add: step)
  have missing: "batch_translation parts k (its ! k) = content (block (its ! k))"
    using k(1) by (simp add: batch_translation_def)
  have raw_of_text: "prefix_or_empty (block (its ! k)) @ content (block (its ! k)) = raw (block (its ! k))"
    if "type (block (its ! k)) = Ttext"
  proof -
    have "its ! k \<in> set (job_items (Batch its))"
      using k(2) by simp
    moreover have "Batch its \<in> set (jobs ?st0)"
      using jb by (simp add: reach)
    ultimately have "its ! k \<in> set (blocksToTranslate cache (parseMarkdownIntoBlocks doc))"
      by (rule job_item_stale [rotated])
    then have "block (its ! k) \<in> set (parseMarkdownIntoBlocks doc)"
      by (auto dest!: blocksToTranslate_item)
    from parse_text_blocks [OF this that] show ?thesis
      by (simp add: prefix_or_empty_def)
  qed
  have count: "completedCount ?st' = completedCount st + int (length its)"
    by (simp add: step)
  have pub: "published ?st' = published st @ [js_join [newline] (currentRenderedBlocks ?st')]"
    by (simp add: step)
  show ?thesis
    using slot slot [OF k(2)] missing raw_of_text count pub by (simp add: Let_def)
qed

theorem batch_missing_parts_keep_original_witness:
  "currentRenderedBlocks
     (step (runTranslation None Map.empty 0
              (''a'' @ [newline, newline] @ ''b'' @ [newline, newline] @ ''c''))
        (Settle 0 (Returned (''A'' @ ''<<<BATCH_SEP>>>'' @ ''B'')))) ! 4 = ''c''"
proof -
  let ?doc = "''a'' @ [newline, newline] @ ''b'' @ [newline, newline] @ ''c''"
  let ?st = "runTranslation None Map.empty 0 ?doc"
  let ?its = "[\<lparr>block = \<lparr>type = Ttext, content = ''a'', prefix = None, lang = None, raw = ''a''\<rparr>,
                index = 0\<rparr>,
               \<lparr>block = \<lparr>type = Ttext, content = ''b'', prefix = None, lang = None, raw = ''b''\<rparr>,
                index = 2\<rparr>,
               \<lparr>block = \<lparr>type = Ttext, content = ''c'', prefix = None, lang = None, raw = ''c''\<rparr>,
                index = 4\<rparr>]"
  let ?t = "''A'' @ ''<<<BATCH_SEP>>>'' @ ''B''"
  have reach: "?st = run ?st []" by simp
  have job: "0 \<in> set (inflight ?st)" "jobs ?st ! 0 = Batch ?its"
    unfolding pass_abc by simp_all
  have parts: "[''A'', ''B''] = js_split ''<<<BATCH_SEP>>>'' ?t"
    by (simp add: js_split_def starts_with_def)
  have len: "length [''A'', ''B''] < length ?its" "length [''A'', ''B''] \<le> 2" "2 < length ?its"
    by simp_all
  from batch_missing_parts_keep_original [OF reach job parts len]
  show ?thesis
    by (simp add: Let_def prefix_or_empty_def)
qed

subsection \<open>A job whose call throws\<close>




subsection \<open>The cache\<close>

text \<open>
  C9. It is claimed that the same raw text is never sent twice, also when it occurs in more
  than one block of a document. The cache is consulted once, when the pass starts: for the
  document of two equal code blocks \<open>x\<close> the pass has two jobs for the same raw text and
  issues two calls.
\<close>

theorem same_text_twice_counterexample:
  "map (\<lambda>jb. map (\<lambda>it. raw (block it)) (job_items jb))
     (jobs (runTranslation None Map.empty 0
        (fence @ [newline] @ ''x'' @ [newline] @ fence @ [newline] @
         fence @ [newline] @ ''x'' @ [newline] @ fence))) =
     [[fence @ [newline] @ ''x'' @ [newline] @ fence],
      [fence @ [newline] @ ''x'' @ [newline] @ fence]] \<and>
   inflight (runTranslation None Map.empty 0
        (fence @ [newline] @ ''x'' @ [newline] @ fence @ [newline] @
         fence @ [newline] @ ''x'' @ [newline] @ fence)) = [0, 1] \<and>
   requests (runTranslation None Map.empty 0
        (fence @ [newline] @ ''x'' @ [newline] @ fence @ [newline] @
         fence @ [newline] @ ''x'' @ [newline] @ fence)) = [''x'', ''x'']"
  unfolding pass_twins by simp

text \<open>
  C9, amended. A raw text that is in the cache when a pass starts is in no job of the
  pass. And when the call of an awaited job returns (for a singleton: in a pass that is not
  cancelled), the raw text of each of its items is in the cache from then on, so that no
  later pass that starts from this cache, whatever its document and settings, has a job
  for it.
\<close>

theorem cached_text_not_sent_again:
  assumes "j \<in> set (inflight st)" and "it \<in> set (job_items (jobs st ! j))"
      and "(\<exists>it'. jobs st ! j = Single it') \<longrightarrow> \<not> aborted st"
  shows "(let st' = run (step st (Settle j (Returned t))) evs;
              st2 = runTranslation settings2 (chunkCache st') lu2 doc2
          in chunkCache st' (raw (block it)) \<noteq> None \<and>
             (\<forall>jb \<in> set (jobs st2). \<forall>it2 \<in> set (job_items jb).
                 chunkCache st' (raw (block it2)) = None \<and> raw (block it2) \<noteq> raw (block it)))"
proof -
  let ?st' = "run (step st (Settle j (Returned t))) evs"
  have cached: "chunkCache ?st' (raw (block it)) \<noteq> None"
    by (intro run_cache_keeps step_Returned_caches assms)
  have miss: "chunkCache ?st' (raw (block it2)) = None"
    if "jb \<in> set (jobs (runTranslation settings2 (chunkCache ?st') lu2 doc2))"
      and "it2 \<in> set (job_items jb)" for jb it2
    using job_item_stale [OF that] by (auto dest!: blocksToTranslate_item)
  have apart: "raw (block it2) \<noteq> raw (block it)"
    if "jb \<in> set (jobs (runTranslation settings2 (chunkCache ?st') lu2 doc2))"
      and "it2 \<in> set (job_items jb)" for jb it2
    using miss [OF that] cached by metis
  from cached miss apart show ?thesis
    unfolding Let_def by blast
qed

theorem cached_text_not_sent_again_witness:
  "chunkCache (step (runTranslation None Map.empty 0 ''hello'') (Settle 0 (Returned ''HOLA'')))
     ''hello'' \<noteq> None \<and>
   jobs (runTranslation None
           (chunkCache (step (runTranslation None Map.empty 0 ''hello'')
                          (Settle 0 (Returned ''HOLA'')))) 0 ''hello'') = []"
proof -
  let ?st = "runTranslation None Map.empty 0 ''hello''"
  let ?it = "\<lparr>block = \<lparr>type = Ttext, content = ''hello'', prefix = None, lang = None,
                         raw = ''hello''\<rparr>, index = 0\<rparr>"
  have a: "0 \<in> set (inflight ?st)" "?it \<in> set (job_items (jobs ?st ! 0))"
    "(\<exists>it'. jobs ?st ! 0 = Single it') \<longrightarrow> \<not> aborted ?st"
    by (simp_all add: pass_hello)
  from cached_text_not_sent_again [OF a, of "''HOLA''" "[]" None 0 "''hello''"]
  show ?thesis
    by (simp add: Let_def runTranslation_jobs parse_hello blocksToTranslate_def with_index_def
        enumerate_eq_zip)
qed

subsection \<open>Highlight ranges\<close>

text \<open>The ranges of the spans of a list of fragments, and how the loop builds them.\<close>

lemma ranges_append [simp]: "ranges (fs @ gs) = ranges fs @ ranges gs"
  by (induction fs rule: ranges.induct) auto

lemma highlight_loop_ranges_Cons:
  "ranges (fst (highlight_loop txt start end cursor (a # anns))) =
     (if max (startOffset a) cursor \<ge> min (endOffset a) end
      then ranges (fst (highlight_loop txt start end cursor anns))
      else (max (startOffset a) cursor, min (endOffset a) end) #
           ranges (fst (highlight_loop txt start end (min (endOffset a) end) anns)))"
  by (simp add: Let_def split: prod.splits)

lemma highlight_loop_ranges_bounds:
  "cursor \<le> end \<Longrightarrow> (lo, hi) \<in> set (ranges (fst (highlight_loop txt start end cursor anns))) \<Longrightarrow>
   cursor \<le> lo \<and> lo < hi \<and> hi \<le> end"
proof (induction anns arbitrary: cursor)
  case Nil
  then show ?case by simp
next
  case (Cons a anns)
  let ?s = "max (startOffset a) cursor" and ?e = "min (endOffset a) end"
  show ?case
  proof (cases "?s \<ge> ?e")
    case True
    with Cons show ?thesis by (simp add: highlight_loop_ranges_Cons del: highlight_loop.simps)
  next
    case False
    then have le: "?e \<le> end" "cursor \<le> ?s" "?s < ?e" by auto
    from Cons.prems(2) False
    have "(lo, hi) = (?s, ?e) \<or> (lo, hi) \<in> set (ranges (fst (highlight_loop txt start end ?e anns)))"
      by (auto simp: highlight_loop_ranges_Cons simp del: highlight_loop.simps)
    then show ?thesis
    proof
      assume "(lo, hi) = (?s, ?e)"
      with le show ?thesis by auto
    next
      assume "(lo, hi) \<in> set (ranges (fst (highlight_loop txt start end ?e anns)))"
      from Cons.IH [OF le(1) this] le show ?thesis by linarith
    qed
  qed
qed

text \<open>Each range ends before the next one begins.\<close>

lemma highlight_loop_ranges_chain:
  "cursor \<le> end \<Longrightarrow>
   sorted_wrt (\<lambda>r r'. snd r \<le> fst r') (ranges (fst (highlight_loop txt start end cursor anns)))"
proof (induction anns arbitrary: cursor)
  case Nil
  then show ?case by simp
next
  case (Cons a anns)
  let ?s = "max (startOffset a) cursor" and ?e = "min (endOffset a) end"
  show ?case
  proof (cases "?s \<ge> ?e")
    case True
    with Cons show ?thesis by (simp add: highlight_loop_ranges_Cons del: highlight_loop.simps)
  next
    case False
    then have le: "?e \<le> end" by auto
    have "\<forall>r \<in> set (ranges (fst (highlight_loop txt start end ?e anns))). ?e \<le> fst r"
      using highlight_loop_ranges_bounds [OF le] by (metis prod.collapse)
    with Cons.IH [OF le] False show ?thesis
      by (simp add: highlight_loop_ranges_Cons del: highlight_loop.simps)
  qed
qed

text \<open>
  From the cursor on, the ranges cover what the declared ranges of the annotations cover,
  when the annotations are in the order of their start offsets.
\<close>

lemma highlight_loop_ranges_cover:
  "sorted (map startOffset anns) \<Longrightarrow> cursor \<le> end \<Longrightarrow>
   (\<Union>r \<in> set (ranges (fst (highlight_loop txt start end cursor anns))). {fst r..<snd r}) =
   (\<Union>a \<in> set anns. {startOffset a..<endOffset a}) \<inter> {cursor..<end}"
proof (induction anns arbitrary: cursor)
  case Nil
  then show ?case by simp
next
  case (Cons a anns)
  define s where "s = max (startOffset a) cursor"
  define e where "e = min (endOffset a) end"
  define U where "U = (\<Union>b \<in> set anns. {startOffset b..<endOffset b})"
  from Cons.prems have sorted: "sorted (map startOffset anns)"
    and later: "\<forall>b \<in> set anns. startOffset a \<le> startOffset b"
    by simp_all
  have unfold: "ranges (fst (highlight_loop txt start end cursor (a # anns))) =
     (if s \<ge> e then ranges (fst (highlight_loop txt start end cursor anns))
      else (s, e) # ranges (fst (highlight_loop txt start end e anns)))"
    unfolding s_def e_def by (rule highlight_loop_ranges_Cons)
  have all: "(\<Union>b \<in> set (a # anns). {startOffset b..<endOffset b}) =
             {startOffset a..<endOffset a} \<union> U"
    by (simp add: U_def)
  show ?case
  proof (cases "s \<ge> e")
    case True
    then have empty: "{startOffset a..<endOffset a} \<inter> {cursor..<end} = {}"
      unfolding s_def e_def by (simp add: set_eq_iff; linarith)
    have ih: "(\<Union>r \<in> set (ranges (fst (highlight_loop txt start end cursor anns))).
        {fst r..<snd r}) = U \<inter> {cursor..<end}"
      unfolding U_def by (rule Cons.IH [OF sorted Cons.prems(2)])
    have "(\<Union>r \<in> set (ranges (fst (highlight_loop txt start end cursor (a # anns)))).
            {fst r..<snd r}) = U \<inter> {cursor..<end}"
      unfolding unfold using True ih by simp
    also have "\<dots> = ({startOffset a..<endOffset a} \<union> U) \<inter> {cursor..<end}"
      using empty by blast
    finally show ?thesis
      unfolding all .
  next
    case False
    then have le: "e \<le> end" "cursor \<le> e"
      unfolding s_def e_def by linarith+
    have first: "{s..<e} = {startOffset a..<endOffset a} \<inter> {cursor..<end}"
      unfolding s_def e_def by (simp add: set_eq_iff; linarith)
    have ih: "(\<Union>r \<in> set (ranges (fst (highlight_loop txt start end e anns))).
        {fst r..<snd r}) = U \<inter> {e..<end}"
      unfolding U_def by (rule Cons.IH [OF sorted le(1)])
    have down: "U \<inter> {e..<end} \<subseteq> U \<inter> {cursor..<end}"
      using le(2) by auto
    have up: "U \<inter> {cursor..<end} \<subseteq> {s..<e} \<union> U \<inter> {e..<end}"
    proof
      fix x
      assume "x \<in> U \<inter> {cursor..<end}"
      then obtain b where b: "b \<in> set anns" "startOffset b \<le> x" "x < endOffset b"
        and x: "cursor \<le> x" "x < end"
        unfolding U_def by auto
      from later b(1) have "startOffset a \<le> startOffset b" by simp
      with b(2) x(1) have sx: "s \<le> x" unfolding s_def by simp
      have "x \<in> U" unfolding U_def using b by auto
      with sx x(2) show "x \<in> {s..<e} \<union> U \<inter> {e..<end}"
        by (cases "x < e") simp_all
    qed
    have "(\<Union>r \<in> set (ranges (fst (highlight_loop txt start end cursor (a # anns)))).
            {fst r..<snd r}) = {s..<e} \<union> U \<inter> {e..<end}"
      unfolding unfold using False ih by simp
    also have "\<dots> = {s..<e} \<union> U \<inter> {cursor..<end}"
      using down up by blast
    also have "\<dots> = ({startOffset a..<endOffset a} \<union> U) \<inter> {cursor..<end}"
      unfolding first by blast
    finally show ?thesis
      unfolding all .
  qed
qed

lemma relevant_cover:
  "(\<Union>a \<in> set (relevant start end anns). {startOffset a..<endOffset a}) \<inter> {start..<end} =
   (\<Union>a \<in> set anns. {startOffset a..<endOffset a}) \<inter> {start..<end}"
  by (auto simp: relevant_def)

lemma relevant_sorted: "sorted (map startOffset (relevant start end anns))"
  by (simp add: relevant_def)

text \<open>
  The ranges highlighted in a text node: no two of them meet, and together they are the
  declared ranges of the annotations cut to the bounds of the node.
\<close>

lemma highlight_string_ranges:
  "sorted_wrt (\<lambda>r r'. snd r \<le> fst r') (ranges (fst (highlight_string txt start anns)))"
  "(\<Union>r \<in> set (ranges (fst (highlight_string txt start anns))). {fst r..<snd r}) =
   (\<Union>a \<in> set anns. {startOffset a..<endOffset a}) \<inter> {start..<start + int (length txt)}"
proof -
  let ?end = "start + int (length txt)"
  let ?rel = "relevant start ?end anns"
  have le: "start \<le> ?end" by simp
  have rs: "ranges (fst (highlight_string txt start anns)) =
            ranges (fst (highlight_loop txt start ?end start ?rel))"
    by (simp add: highlight_string_def Let_def split: prod.splits)
  show "sorted_wrt (\<lambda>r r'. snd r \<le> fst r') (ranges (fst (highlight_string txt start anns)))"
    unfolding rs by (rule highlight_loop_ranges_chain [OF le])
  show "(\<Union>r \<in> set (ranges (fst (highlight_string txt start anns))). {fst r..<snd r}) =
        (\<Union>a \<in> set anns. {startOffset a..<endOffset a}) \<inter> {start..<?end}"
    unfolding rs highlight_loop_ranges_cover [OF relevant_sorted le] by (rule relevant_cover)
qed

subsection \<open>The fragments of a text node\<close>

lemma js_slice_within:
  "0 \<le> a \<Longrightarrow> a \<le> b \<Longrightarrow> b \<le> int (length s) \<Longrightarrow>
   js_slice s a b = take (nat b - nat a) (drop (nat a) s)"
  by (simp add: js_slice_def slice_index_def Let_def min_def)

lemma js_slice_append:
  assumes "0 \<le> a" "a \<le> b" "b \<le> c" "c \<le> int (length s)"
  shows "js_slice s a b @ js_slice s b c = js_slice s a c"
proof -
  define i k where "i = nat b - nat a" and "k = nat c - nat b"
  have sum: "nat c - nat a = i + k"
    unfolding i_def k_def using assms by linarith
  have "drop i (drop (nat a) s) = drop (nat b) s"
    unfolding i_def using assms by simp
  then have "take (i + k) (drop (nat a) s) =
             take i (drop (nat a) s) @ take k (drop (nat b) s)"
    by (simp add: take_add)
  moreover have "js_slice s a b = take i (drop (nat a) s)"
    "js_slice s b c = take k (drop (nat b) s)"
    "js_slice s a c = take (i + k) (drop (nat a) s)"
    unfolding i_def k_def sum [unfolded i_def k_def, symmetric]
    using assms by (simp_all add: js_slice_within)
  ultimately show ?thesis
    by simp
qed

lemma js_slice_empty [simp]: "js_slice s a a = []"
  by (simp add: js_slice_def Let_def)

text \<open>
  The loop leaves the cursor within the node, and the fragments it pushes are the text of
  the node from the first cursor to the last.
\<close>

lemma highlight_loop_text:
  assumes "start \<le> cursor" and "cursor \<le> end" and "end = start + int (length txt)"
  shows "cursor \<le> snd (highlight_loop txt start end cursor anns) \<and>
         snd (highlight_loop txt start end cursor anns) \<le> end \<and>
         concat (map fragment_text (fst (highlight_loop txt start end cursor anns))) =
           js_slice txt (cursor - start) (snd (highlight_loop txt start end cursor anns) - start)"
  using assms
proof (induction anns arbitrary: cursor)
  case Nil
  then show ?case by simp
next
  case (Cons a anns)
  define s where "s = max (startOffset a) cursor"
  define e where "e = min (endOffset a) end"
  show ?case
  proof (cases "s \<ge> e")
    case True
    with Cons show ?thesis by (simp add: s_def e_def Let_def)
  next
    case False
    then have bounds: "start \<le> e" "e \<le> end" "cursor \<le> s" "s \<le> e"
      using Cons.prems unfolding s_def e_def by linarith+
    obtain rest cursor' where loop: "highlight_loop txt start end e anns = (rest, cursor')"
      by (cases "highlight_loop txt start end e anns")
    from Cons.IH [OF bounds(1,2) Cons.prems(3)] loop
    have ih: "e \<le> cursor'" "cursor' \<le> end"
      "concat (map fragment_text rest) = js_slice txt (e - start) (cursor' - start)"
      by simp_all
    have unfold: "highlight_loop txt start end cursor (a # anns) =
        ((if s > cursor then [Plain (js_slice txt (cursor - start) (s - start))] else []) @
         Span a cursor s e (js_slice txt (s - start) (e - start)) # rest, cursor')"
      using False loop by (simp add: s_def e_def Let_def)
    have "js_slice txt (cursor - start) (s - start) @ js_slice txt (s - start) (e - start) @
          js_slice txt (e - start) (cursor' - start) =
          js_slice txt (cursor - start) (cursor' - start)"
      using bounds ih(1,2) Cons.prems
      by (simp add: js_slice_append)
    moreover have "s = cursor" if "\<not> s > cursor"
      using that bounds(3) by simp
    ultimately have "concat (map fragment_text (fst (highlight_loop txt start end cursor (a # anns)))) =
        js_slice txt (cursor - start) (cursor' - start)"
      unfolding unfold using ih(3) by (cases "s > cursor") auto
    with bounds ih(1,2) show ?thesis
      unfolding unfold by simp
  qed
qed

text \<open>The fragments of a text node, put together, are its text.\<close>

lemma highlight_string_text:
  "concat (map fragment_text (fst (highlight_string txt start anns))) = txt"
proof -
  let ?end = "start + int (length txt)"
  let ?rel = "relevant start ?end anns"
  obtain frs cursor where loop: "highlight_loop txt start ?end start ?rel = (frs, cursor)"
    by (cases "highlight_loop txt start ?end start ?rel")
  from highlight_loop_text [of start start ?end "txt" ?rel] loop
  have c: "start \<le> cursor" "cursor \<le> ?end"
    "concat (map fragment_text frs) = js_slice txt 0 (cursor - start)"
    by simp_all
  have whole: "js_slice txt 0 (int (length txt)) = txt"
    by (simp add: js_slice_within)
  have "js_slice txt 0 (cursor - start) @ js_slice txt (cursor - start) (int (length txt)) = txt"
    using c(1,2) whole by (simp add: js_slice_append)
  moreover have "cursor = ?end" if "\<not> cursor < ?end"
    using that c(2) by simp
  ultimately show ?thesis
    using loop c(3) whole
    by (cases "cursor < ?end")
       (auto simp: highlight_string_def Let_def js_slice_from_def)
qed

text \<open>The content of a span is the text between the bounds of the span.\<close>

lemma highlight_loop_span:
  "Span a c lo hi s \<in> set (fst (highlight_loop txt start end cursor anns)) \<Longrightarrow>
   s = js_slice txt (lo - start) (hi - start)"
proof (induction anns arbitrary: cursor)
  case Nil
  then show ?case by simp
next
  case (Cons b anns)
  then show ?case
    by (auto simp: Let_def split: if_splits prod.splits) (metis fst_conv)+
qed

lemma highlight_string_span:
  assumes "Span a c lo hi s \<in> set (fst (highlight_string txt start anns))"
  shows "s = js_slice txt (lo - start) (hi - start)"
proof -
  let ?end = "start + int (length txt)"
  let ?rel = "relevant start ?end anns"
  obtain frs cursor where loop: "highlight_loop txt start ?end start ?rel = (frs, cursor)"
    by (cases "highlight_loop txt start ?end start ?rel")
  from assms loop have "Span a c lo hi s \<in> set frs"
    by (auto simp: highlight_string_def Let_def split: if_splits)
  then have "Span a c lo hi s \<in> set (fst (highlight_loop txt start ?end start ?rel))"
    by (simp add: loop)
  then show ?thesis
    by (rule highlight_loop_span)
qed

subsection \<open>The walk over the tree of a block\<close>

text \<open>\<^verbatim>\<open>React.Children.map\<close> flattens arrays, which leaves the offsets of the text nodes as they are.\<close>

lemma text_ranges_list_append:
  "text_ranges_list (xs @ ys) off =
     (let (ts, off1) = text_ranges_list xs off;
          (ts', off2) = text_ranges_list ys off1
      in (ts @ ts', off2))"
  by (induction xs arbitrary: off) (simp_all split: prod.splits)

lemma text_ranges_toArray:
  "text_ranges_list (toArray n) off = text_ranges n off"
proof (induction n arbitrary: off)
  case (Array ns)
  then have "text_ranges_list (concat (map toArray ns)) off = text_ranges_list ns off"
    by (induction ns arbitrary: off) (simp_all add: text_ranges_list_append)
  then show ?case by simp
qed simp_all

text \<open>A text node moves the counter by its length, and its ranges lie within its bounds.\<close>

lemma highlight_string_snd [simp]:
  "snd (highlight_string s off anns) = off + int (length s)"
  by (simp add: highlight_string_def Let_def split: prod.splits)

lemma highlight_string_bounds:
  assumes "r \<in> set (ranges (fst (highlight_string s off anns)))"
  shows "off \<le> fst r \<and> snd r \<le> off + int (length s)"
proof -
  let ?end = "off + int (length s)"
  have rs: "ranges (fst (highlight_string s off anns)) =
            ranges (fst (highlight_loop s off ?end off (relevant off ?end anns)))"
    by (simp add: highlight_string_def Let_def split: prod.splits)
  from assms have "(fst r, snd r) \<in> set (ranges (fst (highlight_loop s off ?end off (relevant off ?end anns))))"
    unfolding rs by simp
  from highlight_loop_ranges_bounds [OF _ this] show ?thesis by simp
qed

text \<open>
  The walk over a node: the counter moves as in \<open>text_ranges\<close>; each range ends before the
  next one begins and lies between the two values of the counter; together the ranges are
  what the declared ranges of the annotations cover of the text nodes.
\<close>

lemma walk_ranges:
  "snd (RecursiveHighlighter anns n off) = snd (text_ranges n off) \<and>
   off \<le> snd (RecursiveHighlighter anns n off) \<and>
   sorted_wrt (\<lambda>r r'. snd r \<le> fst r')
     (ranges (fragments_of (fst (RecursiveHighlighter anns n off)))) \<and>
   (\<forall>r \<in> set (ranges (fragments_of (fst (RecursiveHighlighter anns n off)))).
      off \<le> fst r \<and> snd r \<le> snd (RecursiveHighlighter anns n off)) \<and>
   (\<Union>r \<in> set (ranges (fragments_of (fst (RecursiveHighlighter anns n off)))). {fst r..<snd r}) =
     (\<Union>a \<in> set anns. {startOffset a..<endOffset a}) \<inter>
     (\<Union>t \<in> set (fst (text_ranges n off)). {fst t..<snd t})"
  and walk_ranges_list:
  "snd (highlight_children anns ns off) = snd (text_ranges_list ns off) \<and>
   off \<le> snd (highlight_children anns ns off) \<and>
   sorted_wrt (\<lambda>r r'. snd r \<le> fst r')
     (ranges (concat (map fragments_of (fst (highlight_children anns ns off))))) \<and>
   (\<forall>r \<in> set (ranges (concat (map fragments_of (fst (highlight_children anns ns off))))).
      off \<le> fst r \<and> snd r \<le> snd (highlight_children anns ns off)) \<and>
   (\<Union>r \<in> set (ranges (concat (map fragments_of (fst (highlight_children anns ns off))))).
      {fst r..<snd r}) =
     (\<Union>a \<in> set anns. {startOffset a..<endOffset a}) \<inter>
     (\<Union>t \<in> set (fst (text_ranges_list ns off)). {fst t..<snd t})"
proof (induction anns n off and anns ns off rule: RecursiveHighlighter_highlight_children.induct)
  case (1 anns s off)
  obtain fr o' where hs: "highlight_string s off anns = (fr, o')"
    by (cases "highlight_string s off anns")
  then have o': "o' = off + int (length s)"
    using highlight_string_snd [of s off anns] by simp
  from highlight_string_ranges [of s off anns] highlight_string_bounds [of _ s off anns] hs o'
  show ?case by auto
next
  case (2 anns isCodeBlock children off)
  show ?case
  proof (cases "\<not> isCodeBlock \<and> js_truthy children")
    case True
    obtain rs o' where hc: "highlight_children anns (toArray children) off = (rs, o')"
      by (cases "highlight_children anns (toArray children) off")
    from True have "\<not> isCodeBlock" "\<not> \<not> js_truthy children"
      by simp_all
    from 2 [OF this] have ih: "snd (highlight_children anns (toArray children) off) =
         snd (text_ranges_list (toArray children) off) \<and>
       off \<le> snd (highlight_children anns (toArray children) off) \<and>
       sorted_wrt (\<lambda>r r'. snd r \<le> fst r')
         (ranges (concat (map fragments_of (fst (highlight_children anns (toArray children) off))))) \<and>
       (\<forall>r \<in> set (ranges (concat (map fragments_of (fst (highlight_children anns (toArray children) off))))).
          off \<le> fst r \<and> snd r \<le> snd (highlight_children anns (toArray children) off)) \<and>
       (\<Union>r \<in> set (ranges (concat (map fragments_of (fst (highlight_children anns (toArray children) off))))).
          {fst r..<snd r}) =
         (\<Union>a \<in> set anns. {startOffset a..<endOffset a}) \<inter>
         (\<Union>t \<in> set (fst (text_ranges_list (toArray children) off)). {fst t..<snd t})" .
    have rh: "RecursiveHighlighter anns (Element isCodeBlock children) off = (Clone rs, o')"
      using True hc by simp
    have tr: "text_ranges (Element isCodeBlock children) off = text_ranges_list (toArray children) off"
      using True by (simp add: text_ranges_toArray)
    from ih show ?thesis
      unfolding rh tr by (auto simp: hc)
  next
    case False
    then show ?thesis by auto
  qed
next
  case (3 anns ns off)
  obtain rs o' where hc: "highlight_children anns ns off = (rs, o')"
    by (cases "highlight_children anns ns off")
  with 3 show ?case by auto
next
  case (4 anns s off)
  show ?case by simp
next
  case (5 anns off)
  show ?case by simp
next
  case (6 anns off)
  show ?case by simp
next
  case (7 anns off)
  show ?case by simp
next
  case (8 anns child ns off)
  obtain r o1 where rh: "RecursiveHighlighter anns child off = (r, o1)"
    by (cases "RecursiveHighlighter anns child off")
  obtain rs o2 where hc: "highlight_children anns ns o1 = (rs, o2)"
    by (cases "highlight_children anns ns o1")
  obtain ts t1 where tr: "text_ranges child off = (ts, t1)"
    by (cases "text_ranges child off")
  obtain ts' t2 where trl: "text_ranges_list ns t1 = (ts', t2)"
    by (cases "text_ranges_list ns t1")
  from 8(1) rh tr have a: "o1 = t1" "off \<le> o1"
    "sorted_wrt (\<lambda>r r'. snd r \<le> fst r') (ranges (fragments_of r))"
    "\<forall>x \<in> set (ranges (fragments_of r)). off \<le> fst x \<and> snd x \<le> o1"
    "(\<Union>x \<in> set (ranges (fragments_of r)). {fst x..<snd x}) =
       (\<Union>a \<in> set anns. {startOffset a..<endOffset a}) \<inter> (\<Union>t \<in> set ts. {fst t..<snd t})"
    by auto
  from 8(2) [OF rh [symmetric]] hc trl a(1) have b: "o2 = t2" "o1 \<le> o2"
    "sorted_wrt (\<lambda>r r'. snd r \<le> fst r') (ranges (concat (map fragments_of rs)))"
    "\<forall>x \<in> set (ranges (concat (map fragments_of rs))). o1 \<le> fst x \<and> snd x \<le> o2"
    "(\<Union>x \<in> set (ranges (concat (map fragments_of rs))). {fst x..<snd x}) =
       (\<Union>a \<in> set anns. {startOffset a..<endOffset a}) \<inter> (\<Union>t \<in> set ts'. {fst t..<snd t})"
    by auto
  have step: "highlight_children anns (child # ns) off = (r # rs, o2)"
    using rh hc by simp
  have tstep: "text_ranges_list (child # ns) off = (ts @ ts', t2)"
    using tr trl by simp
  have chain: "sorted_wrt (\<lambda>r r'. snd r \<le> fst r')
      (ranges (fragments_of r) @ ranges (concat (map fragments_of rs)))"
    using a(3,4) b(3,4) by (fastforce simp: sorted_wrt_append)
  have bounds: "\<forall>x \<in> set (ranges (fragments_of r) @ ranges (concat (map fragments_of rs))).
      off \<le> fst x \<and> snd x \<le> o2"
    using a(2,4) b(2,4) by fastforce
  have cover: "(\<Union>x \<in> set (ranges (fragments_of r) @ ranges (concat (map fragments_of rs))).
        {fst x..<snd x}) =
      (\<Union>a \<in> set anns. {startOffset a..<endOffset a}) \<inter> (\<Union>t \<in> set (ts @ ts'). {fst t..<snd t})"
    using a(5) b(5) by (simp add: Int_Un_distrib)
  show ?case
    unfolding step tstep using a(2) b(1,2) chain bounds cover by simp
qed

text \<open>
  Without a code element and without a number the text nodes fill the block from its
  first offset to its last.
\<close>

lemma text_only_ranges:
  "text_only n \<Longrightarrow>
   snd (text_ranges n off) = off + int (length (getTextContent n)) \<and>
   (\<Union>t \<in> set (fst (text_ranges n off)). {fst t..<snd t}) = {off..<snd (text_ranges n off)}"
  and text_only_ranges_list:
  "list_all text_only ns \<Longrightarrow>
   snd (text_ranges_list ns off) = off + int (length (concat (map getTextContent ns))) \<and>
   (\<Union>t \<in> set (fst (text_ranges_list ns off)). {fst t..<snd t}) =
     {off..<snd (text_ranges_list ns off)}"
proof (induction n off and ns off rule: text_ranges_text_ranges_list.induct)
  case (8 n ns off)
  obtain ts t1 where tr: "text_ranges n off = (ts, t1)"
    by (cases "text_ranges n off")
  obtain ts' t2 where trl: "text_ranges_list ns t1 = (ts', t2)"
    by (cases "text_ranges_list ns t1")
  from 8(1) 8(3) tr have a: "t1 = off + int (length (getTextContent n))"
    "(\<Union>t \<in> set ts. {fst t..<snd t}) = {off..<t1}"
    by simp_all
  from 8(2) [OF tr [symmetric]] 8(3) trl
  have b: "t2 = t1 + int (length (concat (map getTextContent ns)))"
    "(\<Union>t \<in> set ts'. {fst t..<snd t}) = {t1..<t2}"
    by simp_all
  have "{off..<t1} \<union> {t1..<t2} = {off..<t2}"
    using a(1) b(1) by auto
  with a b tr trl show ?case by simp
qed auto

lemma annotated_block_ranges:
  "sorted_wrt (\<lambda>r r'. snd r \<le> fst r') (ranges (fragments_of (AnnotatedBlock blk anns)))"
  "(\<Union>r \<in> set (ranges (fragments_of (AnnotatedBlock blk anns))). {fst r..<snd r}) =
   (\<Union>a \<in> {a \<in> set anns. contextHash a = djb2Hash (getTextContent blk)}.
      {startOffset a..<endOffset a}) \<inter>
   (\<Union>t \<in> set (fst (text_ranges blk 0)). {fst t..<snd t})"
  using walk_ranges [of "filter (\<lambda>a. contextHash a = djb2Hash (getTextContent blk)) anns" blk 0]
  by (simp_all add: AnnotatedBlock_def Let_def)

lemma text_only_bounds:
  "text_only blk \<Longrightarrow>
   (\<Union>t \<in> set (fst (text_ranges blk 0)). {fst t..<snd t}) = {0..<int (length (getTextContent blk))}"
  using text_only_ranges [of blk 0] by simp

lemma chain_disjoint:
  fixes rs :: "(int \<times> int) list"
  assumes "sorted_wrt (\<lambda>r r'. snd r \<le> fst r') rs" and "i < j" and "j < length rs"
  shows "{fst (rs ! i)..<snd (rs ! i)} \<inter> {fst (rs ! j)..<snd (rs ! j)} = {}"
proof -
  from assms have "snd (rs ! i) \<le> fst (rs ! j)"
    by (simp add: sorted_wrt_iff_nth_less)
  then show ?thesis by auto
qed

text \<open>
  C6. For any block and any two overlapping annotations whose \<^verbatim>\<open>contextHash\<close> is the hash
  of the block, the union of the highlighted ranges is claimed to be the union of the two
  declared ranges cut to the bounds of the block. The walk does not enter a code element:
  in the paragraph \<open>ab `cd` ef\<close>, whose children are the text \<open>ab \<close>, the code element \<open>cd\<close>
  and the text \<open> ef\<close>, the annotations of the offsets 1 to 5 and 4 to 8 overlap, and the
  highlighted ranges are 1 to 3 and 5 to 8: the offsets 3 and 4, which both declared
  ranges cover within the bounds 0 to 8, are not highlighted.
\<close>

theorem code_span_not_highlighted_counterexample:
  "getTextContent (Array [TextNode ''ab '', Element True (TextNode ''cd''), TextNode '' ef'']) =
     ''ab cd ef'' \<and>
   ranges (fragments_of (AnnotatedBlock
      (Array [TextNode ''ab '', Element True (TextNode ''cd''), TextNode '' ef''])
      [\<lparr>ann_id = ''1'', ann_text = ''b cd'', ann_note = ''first'', timestamp = 0,
        contextHash = djb2Hash ''ab cd ef'', startOffset = 1, endOffset = 5\<rparr>,
       \<lparr>ann_id = ''2'', ann_text = ''d ef'', ann_note = ''second'', timestamp = 1,
        contextHash = djb2Hash ''ab cd ef'', startOffset = 4, endOffset = 8\<rparr>])) =
     [(1, 3), (5, 8)] \<and>
   (\<Union>r \<in> set (ranges (fragments_of (AnnotatedBlock
      (Array [TextNode ''ab '', Element True (TextNode ''cd''), TextNode '' ef''])
      [\<lparr>ann_id = ''1'', ann_text = ''b cd'', ann_note = ''first'', timestamp = 0,
        contextHash = djb2Hash ''ab cd ef'', startOffset = 1, endOffset = 5\<rparr>,
       \<lparr>ann_id = ''2'', ann_text = ''d ef'', ann_note = ''second'', timestamp = 1,
        contextHash = djb2Hash ''ab cd ef'', startOffset = 4, endOffset = 8\<rparr>]))).
      {fst r..<snd r}) \<noteq>
   ({1..<5} \<union> {4..<8}) \<inter>
   {0..<int (length (getTextContent
      (Array [TextNode ''ab '', Element True (TextNode ''cd''), TextNode '' ef''])))}"
proof -
  let ?blk = "Array [TextNode ''ab '', Element True (TextNode ''cd''), TextNode '' ef'']"
  let ?anns = "[\<lparr>ann_id = ''1'', ann_text = ''b cd'', ann_note = ''first'', timestamp = 0,
        contextHash = djb2Hash ''ab cd ef'', startOffset = 1, endOffset = 5\<rparr>,
       \<lparr>ann_id = ''2'', ann_text = ''d ef'', ann_note = ''second'', timestamp = 1,
        contextHash = djb2Hash ''ab cd ef'', startOffset = 4, endOffset = 8\<rparr>]"
  have rs: "ranges (fragments_of (AnnotatedBlock ?blk ?anns)) = [(1, 3), (5, 8)]"
    by (simp add: AnnotatedBlock_def highlight_string_def relevant_def Let_def
        js_slice_def js_slice_from_def slice_index_def)
  have "(3::int) \<in> ({1..<5} \<union> {4..<8}) \<inter> {0..<8}" "(3::int) \<notin> {1..<3} \<union> {5..<8}"
    by simp_all
  then have "{1..<3} \<union> {5..<8} \<noteq> ({1..<5} \<union> {4..<8}) \<inter> {0..<8::int}"
    by metis
  then have "(\<Union>r \<in> set (ranges (fragments_of (AnnotatedBlock ?blk ?anns))). {fst r..<snd r}) \<noteq>
      ({1..<5} \<union> {4..<8}) \<inter> {0..<int (length (getTextContent ?blk))}"
    unfolding rs by simp
  with rs show ?thesis by simp
qed

text \<open>
  C6, amended. For any block and any two overlapping annotations whose \<^verbatim>\<open>contextHash\<close> is
  the hash of the block, the ranges of the highlighted spans are pairwise disjoint, and
  their union is the union of the two declared ranges cut to the offsets of the text nodes
  of the block, that is, to the bounds of the block without the offsets of its code
  elements. For a block with no code element and no number in it, their union is the union
  of the two declared ranges cut to the bounds of the block. (The first two hold for any
  list of annotations, by \<open>annotated_block_ranges\<close>.)
\<close>

theorem overlapping_highlights_disjoint_cover:
  assumes hash: "contextHash a = djb2Hash (getTextContent blk)"
                "contextHash b = djb2Hash (getTextContent blk)"
      and overlap: "{startOffset a..<endOffset a} \<inter> {startOffset b..<endOffset b} \<noteq> {}"
  shows "(let rs = ranges (fragments_of (AnnotatedBlock blk [a, b]))
          in (\<forall>i j. i < j \<and> j < length rs \<longrightarrow>
                 {fst (rs ! i)..<snd (rs ! i)} \<inter> {fst (rs ! j)..<snd (rs ! j)} = {}) \<and>
             (\<Union>r \<in> set rs. {fst r..<snd r}) =
               ({startOffset a..<endOffset a} \<union> {startOffset b..<endOffset b}) \<inter>
               (\<Union>t \<in> set (fst (text_ranges blk 0)). {fst t..<snd t}) \<and>
             (text_only blk \<longrightarrow>
                (\<Union>r \<in> set rs. {fst r..<snd r}) =
                  ({startOffset a..<endOffset a} \<union> {startOffset b..<endOffset b}) \<inter>
                  {0..<int (length (getTextContent blk))}))"
proof -
  have "{x \<in> set [a, b]. contextHash x = djb2Hash (getTextContent blk)} = {a, b}"
    using hash by auto
  then have cover: "(\<Union>r \<in> set (ranges (fragments_of (AnnotatedBlock blk [a, b]))). {fst r..<snd r}) =
      ({startOffset a..<endOffset a} \<union> {startOffset b..<endOffset b}) \<inter>
      (\<Union>t \<in> set (fst (text_ranges blk 0)). {fst t..<snd t})"
    unfolding annotated_block_ranges(2) by simp
  have plain: "(\<Union>r \<in> set (ranges (fragments_of (AnnotatedBlock blk [a, b]))). {fst r..<snd r}) =
      ({startOffset a..<endOffset a} \<union> {startOffset b..<endOffset b}) \<inter>
      {0..<int (length (getTextContent blk))}" if "text_only blk"
    unfolding cover text_only_bounds [OF that] ..
  from chain_disjoint [OF annotated_block_ranges(1) [of blk "[a, b]"]] cover plain
  show ?thesis
    unfolding Let_def by blast
qed

theorem overlapping_highlights_disjoint_cover_witness:
  "(\<Union>r \<in> set (ranges (fragments_of (AnnotatedBlock
       (Array [TextNode ''ab '', Element True (TextNode ''cd''), TextNode '' ef''])
       [\<lparr>ann_id = ''1'', ann_text = ''b cd'', ann_note = ''first'', timestamp = 0,
         contextHash = djb2Hash ''ab cd ef'', startOffset = 1, endOffset = 5\<rparr>,
        \<lparr>ann_id = ''2'', ann_text = ''d ef'', ann_note = ''second'', timestamp = 1,
         contextHash = djb2Hash ''ab cd ef'', startOffset = 4, endOffset = 8\<rparr>]))).
      {fst r..<snd r}) = {1..<3} \<union> {5..<8} \<and>
   (\<Union>r \<in> set (ranges (fragments_of (AnnotatedBlock
       (Array [TextNode ''he'', Element False (TextNode ''llo w''), TextNode ''orld''])
       [\<lparr>ann_id = ''1'', ann_text = ''llo w'', ann_note = ''first'', timestamp = 0,
         contextHash = djb2Hash ''hello world'', startOffset = 2, endOffset = 7\<rparr>,
        \<lparr>ann_id = ''2'', ann_text = '' wor'', ann_note = ''second'', timestamp = 1,
         contextHash = djb2Hash ''hello world'', startOffset = 5, endOffset = 9\<rparr>]))).
      {fst r..<snd r}) = {2..<9}"
proof -
  let ?code = "Array [TextNode ''ab '', Element True (TextNode ''cd''), TextNode '' ef'']"
  let ?a = "\<lparr>ann_id = ''1'', ann_text = ''b cd'', ann_note = ''first'', timestamp = 0,
         contextHash = djb2Hash ''ab cd ef'', startOffset = 1, endOffset = 5\<rparr>"
  let ?b = "\<lparr>ann_id = ''2'', ann_text = ''d ef'', ann_note = ''second'', timestamp = 1,
         contextHash = djb2Hash ''ab cd ef'', startOffset = 4, endOffset = 8\<rparr>"
  let ?plain = "Array [TextNode ''he'', Element False (TextNode ''llo w''), TextNode ''orld'']"
  let ?c = "\<lparr>ann_id = ''1'', ann_text = ''llo w'', ann_note = ''first'', timestamp = 0,
         contextHash = djb2Hash ''hello world'', startOffset = 2, endOffset = 7\<rparr>"
  let ?d = "\<lparr>ann_id = ''2'', ann_text = '' wor'', ann_note = ''second'', timestamp = 1,
         contextHash = djb2Hash ''hello world'', startOffset = 5, endOffset = 9\<rparr>"
  have hash1: "contextHash ?a = djb2Hash (getTextContent ?code)"
    "contextHash ?b = djb2Hash (getTextContent ?code)"
    by simp_all
  have overlap1: "{startOffset ?a..<endOffset ?a} \<inter> {startOffset ?b..<endOffset ?b} \<noteq> {}"
    by simp
  have hash2: "contextHash ?c = djb2Hash (getTextContent ?plain)"
    "contextHash ?d = djb2Hash (getTextContent ?plain)"
    by simp_all
  have overlap2: "{startOffset ?c..<endOffset ?c} \<inter> {startOffset ?d..<endOffset ?d} \<noteq> {}"
    by simp
  have sets: "({1..<5} \<union> {4..<8}) \<inter> ({0..<3} \<union> {5..<8}) = {1..<3} \<union> {5..<8::int}"
    "({2..<7} \<union> {5..<9}) \<inter> {0..<11} = {2..<9::int}"
    by auto
  have text1: "(\<Union>t \<in> set (fst (text_ranges ?code 0)). {fst t..<snd t}) = {0..<3} \<union> {5..<8}"
    by simp
  have text2: "text_only ?plain" "int (length (getTextContent ?plain)) = 11"
    by simp_all
  from overlapping_highlights_disjoint_cover
         [OF hash1 overlap1, unfolded Let_def, THEN conjunct2, THEN conjunct1]
  have one: "(\<Union>r \<in> set (ranges (fragments_of (AnnotatedBlock ?code [?a, ?b]))). {fst r..<snd r}) =
      {1..<3} \<union> {5..<8}"
    unfolding text1 using sets(1) by simp
  from overlapping_highlights_disjoint_cover
         [OF hash2 overlap2, unfolded Let_def, THEN conjunct2, THEN conjunct2, THEN mp, OF text2(1)]
  have two: "(\<Union>r \<in> set (ranges (fragments_of (AnnotatedBlock ?plain [?c, ?d]))). {fst r..<snd r}) =
      {2..<9}"
    using sets(2) by simp
  from one two show ?thesis ..
qed

text \<open>For two overlapping annotations of one text node the spans are \<open>llo w\<close> and, cut at the cursor, \<open>or\<close>.\<close>

lemma overlapping_highlights_sample:
  "fragments_of (AnnotatedBlock (TextNode ''hello world'')
       [\<lparr>ann_id = ''1'', ann_text = ''llo w'', ann_note = ''first'', timestamp = 0,
         contextHash = djb2Hash ''hello world'', startOffset = 2, endOffset = 7\<rparr>,
        \<lparr>ann_id = ''2'', ann_text = '' wor'', ann_note = ''second'', timestamp = 1,
         contextHash = djb2Hash ''hello world'', startOffset = 5, endOffset = 9\<rparr>]) =
     [Plain ''he'',
      Span \<lparr>ann_id = ''1'', ann_text = ''llo w'', ann_note = ''first'', timestamp = 0,
         contextHash = djb2Hash ''hello world'', startOffset = 2, endOffset = 7\<rparr> 0 2 7 ''llo w'',
      Span \<lparr>ann_id = ''2'', ann_text = '' wor'', ann_note = ''second'', timestamp = 1,
         contextHash = djb2Hash ''hello world'', startOffset = 5, endOffset = 9\<rparr> 7 7 9 ''or'',
      Plain ''ld'']"
  by (simp add: AnnotatedBlock_def highlight_string_def relevant_def Let_def
      js_slice_def js_slice_from_def slice_index_def)

text \<open>What is rendered for the paragraph with the code element.\<close>

lemma code_span_sample:
  "AnnotatedBlock (Array [TextNode ''ab '', Element True (TextNode ''cd''), TextNode '' ef''])
      [\<lparr>ann_id = ''1'', ann_text = ''b cd'', ann_note = ''first'', timestamp = 0,
        contextHash = djb2Hash ''ab cd ef'', startOffset = 1, endOffset = 5\<rparr>,
       \<lparr>ann_id = ''2'', ann_text = ''d ef'', ann_note = ''second'', timestamp = 1,
        contextHash = djb2Hash ''ab cd ef'', startOffset = 4, endOffset = 8\<rparr>] =
     Group [Fragments [Plain ''a'',
              Span \<lparr>ann_id = ''1'', ann_text = ''b cd'', ann_note = ''first'', timestamp = 0,
                contextHash = djb2Hash ''ab cd ef'', startOffset = 1, endOffset = 5\<rparr> 0 1 3 ''b ''],
            Same (Element True (TextNode ''cd'')),
            Fragments [Span \<lparr>ann_id = ''2'', ann_text = ''d ef'', ann_note = ''second'', timestamp = 1,
                contextHash = djb2Hash ''ab cd ef'', startOffset = 4, endOffset = 8\<rparr> 5 5 8 '' ef'']]"
  by (simp add: AnnotatedBlock_def highlight_string_def relevant_def Let_def
      js_slice_def js_slice_from_def slice_index_def)

subsection \<open>Lossless segmentation\<close>

lemma js_join_split: "js_join [newline] (split_newline s) = s"
proof (induction s)
  case Nil
  show ?case by simp
next
  case (Cons c s)
  obtain l ls where split: "split_newline s = l # ls"
    by (cases "split_newline s") simp_all
  with Cons show ?case
    by (cases ls) auto
qed

lemma split_newline_lines: "l \<in> set (split_newline s) \<Longrightarrow> newline \<notin> set l"
proof (induction s arbitrary: l)
  case Nil
  then show ?case by simp
next
  case (Cons c s)
  obtain k ks where split: "split_newline s = k # ks"
    by (cases "split_newline s") simp_all
  with Cons show ?case
    by (auto split: if_splits)
qed

lemma js_join_append:
  "xs \<noteq> [] \<Longrightarrow> ys \<noteq> [] \<Longrightarrow> js_join sep (xs @ ys) = js_join sep xs @ sep @ js_join sep ys"
proof (induction sep xs rule: js_join.induct)
  case (1 sep)
  then show ?case by simp
next
  case (2 sep x)
  then show ?case by (cases ys) simp_all
next
  case (3 sep x y xs)
  then show ?case by simp
qed

lemma split_join:
  "ls \<noteq> [] \<Longrightarrow> \<forall>l \<in> set ls. newline \<notin> set l \<Longrightarrow> split_newline (js_join [newline] ls) = ls"
proof (induction "[newline]" ls rule: js_join.induct)
  case 1
  then show ?case by simp
next
  case (2 x)
  then show ?case by (simp add: split_newline_no_newline)
next
  case (3 x y xs)
  then show ?case
    by (simp add: split_newline_append split_newline_no_newline)
qed

lemma block_lines_simps [simp]:
  "block_lines [] = []"
  "block_lines (bs @ cs) = block_lines bs @ block_lines cs"
  "block_lines [b] = split_newline (raw b)"
  by (simp_all add: block_lines_def)

text \<open>Joining the raw texts of blocks is joining the lines they stand for.\<close>

lemma join_block_lines:
  "js_join [newline] (map raw bs) = js_join [newline] (block_lines bs)"
proof (induction bs)
  case Nil
  show ?case by simp
next
  case (Cons b bs)
  show ?case
  proof (cases bs)
    case Nil
    then show ?thesis by (simp add: block_lines_def js_join_split)
  next
    case (Cons c cs)
    then have ne: "block_lines bs \<noteq> []"
      by (simp add: block_lines_def)
    have "block_lines (b # bs) = split_newline (raw b) @ block_lines bs"
      by (simp add: block_lines_def)
    with js_join_append [OF split_newline_not_Nil ne, of "[newline]" "raw b"] Cons.IH Cons
    show ?thesis
      by (simp add: js_join_split)
  qed
qed

lemma fence_no_newline [simp]: "newline \<notin> set fence"
  by (simp add: fence_def newline_def)

lemma group_no_newline [simp]: "newline \<notin> set (codeFenceStart_group l)"
proof -
  have "\<not> js_word newline"
    by (simp add: js_word_def newline_def Let_def)
  then show ?thesis
    unfolding codeFenceStart_group_def by (metis set_takeWhileD)
qed

lemma flushTextBuffer_lines:
  assumes "scan_ok st"
  shows "block_lines (blocks (flushTextBuffer st)) = block_lines (blocks st) @ currentTextBuffer st"
    and "currentTextBuffer (flushTextBuffer st) = []"
    and "inCodeBlock (flushTextBuffer st) = inCodeBlock st"
    and "codeBuffer (flushTextBuffer st) = codeBuffer st"
    and "codeLang (flushTextBuffer st) = codeLang st"
  using assms by (auto simp: flushTextBuffer_def scan_ok_def split_join)

text \<open>What a line must be like, in a state of the scan, for no code unit to be lost.\<close>

lemma scan_line_lines:
  assumes ok: "scan_ok st" and line: "newline \<notin> set l"
      and faithful:
        "if \<not> inCodeBlock st \<and> codeFenceStart_test l then l = fence @ codeFenceStart_group l
         else if inCodeBlock st then (codeFenceEnd_test l \<longrightarrow> codeBuffer st \<noteq> [])
         else (js_trim l = [] \<longrightarrow> l = [])"
  shows "scan_ok (scan_line st l) \<and>
         block_lines (blocks (scan_line st l)) @ pending_lines (scan_line st l) =
           block_lines (blocks st) @ pending_lines st @ [l]"
proof (cases "\<not> inCodeBlock st \<and> codeFenceStart_test l")
  case True
  with faithful have l: "l = fence @ codeFenceStart_group l" by simp
  have "scan_line st l = (flushTextBuffer st)\<lparr>inCodeBlock := True,
      codeLang := codeFenceStart_group l, codeBuffer := []\<rparr>"
    using True by (simp add: scan_line_def)
  with True ok flushTextBuffer_lines [OF ok] l show ?thesis
    by (simp add: scan_ok_def pending_lines_def)
next
  case False
  show ?thesis
  proof (cases "inCodeBlock st")
    case inside: True
    with ok have tb: "currentTextBuffer st = []"
      by (simp add: scan_ok_def)
    show ?thesis
    proof (cases "codeFenceEnd_test l")
      case True
      with inside faithful have body: "codeBuffer st \<noteq> []" by simp
      from ok have clean: "\<forall>k \<in> set (codeBuffer st). newline \<notin> set k"
        "newline \<notin> set (codeLang st)"
        by (simp_all add: scan_ok_def)
      have "split_newline (fence @ codeLang st @ [newline] @
              js_join [newline] (codeBuffer st) @ [newline] @ fence) =
            (fence @ codeLang st) # codeBuffer st @ [fence]"
        using split_newline_append [of "fence @ codeLang st"
            "js_join [newline] (codeBuffer st) @ newline # fence"]
          split_newline_append [of "js_join [newline] (codeBuffer st)" fence]
          split_join [OF body clean(1)] clean(2)
        by (simp add: split_newline_no_newline)
      with True inside tb ok show ?thesis
        by (simp add: scan_line_def scan_ok_def pending_lines_def codeFenceEnd_test_def)
    next
      case False
      with inside tb ok line show ?thesis
        by (simp add: scan_line_def scan_ok_def pending_lines_def)
    qed
  next
    case outside: False
    with False have nofence: "\<not> codeFenceStart_test l" by simp
    note fl = flushTextBuffer_lines [OF ok]
    show ?thesis
    proof (cases "header_match l")
      case (Some m)
      obtain hashes rest where "m = (hashes, rest)" by (cases m)
      with Some outside nofence ok line fl show ?thesis
        by (simp add: scan_line_def Let_def scan_ok_def pending_lines_def
            split_newline_no_newline flushTextBuffer_def)
    next
      case None
      show ?thesis
      proof (cases "js_trim l = []")
        case True
        with faithful outside nofence have "l = []" by simp
        with None True outside nofence ok fl show ?thesis
          by (simp add: scan_line_def Let_def scan_ok_def pending_lines_def flushTextBuffer_def)
      next
        case False
        with None outside nofence ok line show ?thesis
          by (simp add: scan_line_def scan_ok_def pending_lines_def)
      qed
    qed
  qed
qed

lemma faithful_lines_scan:
  assumes "faithful_lines (inCodeBlock st) n ls"
      and "inCodeBlock st \<longrightarrow> n = length (codeBuffer st)"
      and "scan_ok st" and "\<forall>l \<in> set ls. newline \<notin> set l"
  shows "scan_ok (foldl scan_line st ls) \<and> \<not> inCodeBlock (foldl scan_line st ls) \<and>
         block_lines (blocks (foldl scan_line st ls)) @ pending_lines (foldl scan_line st ls) =
           block_lines (blocks st) @ pending_lines st @ ls"
  using assms
proof (induction ls arbitrary: st n)
  case Nil
  then show ?case by simp
next
  case (Cons l ls)
  have line: "newline \<notin> set l" and lines: "\<forall>k \<in> set ls. newline \<notin> set k"
    using Cons.prems(4) by simp_all
  have step_ok: "if \<not> inCodeBlock st \<and> codeFenceStart_test l
         then l = fence @ codeFenceStart_group l
         else if inCodeBlock st then (codeFenceEnd_test l \<longrightarrow> codeBuffer st \<noteq> [])
         else (js_trim l = [] \<longrightarrow> l = [])"
    using Cons.prems(1,2) by (auto split: if_splits)
  note step = scan_line_lines [OF Cons.prems(3) line step_ok]
  have "\<exists>m. faithful_lines (inCodeBlock (scan_line st l)) m ls \<and>
            (inCodeBlock (scan_line st l) \<longrightarrow> m = length (codeBuffer (scan_line st l)))"
  proof (cases "\<not> inCodeBlock st \<and> codeFenceStart_test l")
    case True
    with Cons.prems(1) have "faithful_lines True 0 ls" by simp
    with True show ?thesis
      by (intro exI [of _ 0]) (simp add: scan_line_def)
  next
    case False
    show ?thesis
    proof (cases "inCodeBlock st")
      case inside: True
      show ?thesis
      proof (cases "codeFenceEnd_test l")
        case True
        with inside Cons.prems(1) have "faithful_lines False 0 ls" by simp
        with True inside show ?thesis
          by (intro exI [of _ 0]) (simp add: scan_line_def)
      next
        case False
        with inside Cons.prems(1) have "faithful_lines True (Suc n) ls" by simp
        with False inside Cons.prems(2) show ?thesis
          by (intro exI [of _ "Suc n"]) (simp add: scan_line_def)
      qed
    next
      case outside: False
      with False Cons.prems(1) have "faithful_lines False 0 ls" by simp
      moreover have "\<not> inCodeBlock (scan_line st l)"
        using outside False
        by (simp add: scan_line_def flushTextBuffer_def Let_def split: option.splits)
      ultimately show ?thesis
        by (intro exI [of _ 0]) simp
    qed
  qed
  then obtain m where m: "faithful_lines (inCodeBlock (scan_line st l)) m ls"
    "inCodeBlock (scan_line st l) \<longrightarrow> m = length (codeBuffer (scan_line st l))"
    by blast
  from Cons.IH [OF m _ lines] step show ?case
    by simp
qed

text \<open>
  C3. Segmentation is claimed to be lossless for every document. A line of white space
  only becomes the separator block, whose raw text is empty: for the document that is one
  space the raw texts join to the empty document.
\<close>

theorem segmentation_lossless_counterexample:
  "js_join [newline] (map raw (parseMarkdownIntoBlocks '' '')) = [] \<and>
   js_join [newline] (map raw (parseMarkdownIntoBlocks '' '')) \<noteq> '' ''"
  by (simp add: parse_defs)

text \<open>
  C3, amended. Joining the raw texts of the blocks with newlines gives the document back
  for every document in which each line of white space outside a fence is empty and each
  fence is opened by a line of three backticks and word characters only, holds at least
  one line and is closed.
\<close>

theorem segmentation_lossless:
  assumes "faithful_lines False 0 (split_newline doc)"
  shows "js_join [newline] (map raw (parseMarkdownIntoBlocks doc)) = doc"
proof -
  let ?st = "foldl scan_line scan_init (split_newline doc)"
  have init: "scan_ok scan_init" "\<not> inCodeBlock scan_init"
    "block_lines (blocks scan_init) = []" "pending_lines scan_init = []"
    by (simp_all add: scan_init_def scan_ok_def pending_lines_def)
  have lines: "\<forall>l \<in> set (split_newline doc). newline \<notin> set l"
    by (simp add: split_newline_lines)
  from faithful_lines_scan [of scan_init 0 "split_newline doc"] assms init lines
  have scan: "scan_ok ?st" "\<not> inCodeBlock ?st"
    "block_lines (blocks ?st) @ pending_lines ?st = split_newline doc"
    by simp_all
  from scan(2,3) flushTextBuffer_lines(1) [OF scan(1)]
  have "block_lines (parseMarkdownIntoBlocks doc) = split_newline doc"
    by (simp add: parseMarkdownIntoBlocks_def pending_lines_def)
  then show ?thesis
    by (simp add: join_block_lines js_join_split)
qed

theorem segmentation_lossless_witness:
  "js_join [newline] (map raw (parseMarkdownIntoBlocks
     (''# Hi'' @ [newline, newline] @ ''Some text.'' @ [newline] @
      fence @ ''js'' @ [newline] @ ''const x=1;'' @ [newline] @ fence))) =
   ''# Hi'' @ [newline, newline] @ ''Some text.'' @ [newline] @
   fence @ ''js'' @ [newline] @ ''const x=1;'' @ [newline] @ fence"
proof -
  have "faithful_lines False 0 (split_newline
     (''# Hi'' @ [newline, newline] @ ''Some text.'' @ [newline] @
      fence @ ''js'' @ [newline] @ ''const x=1;'' @ [newline] @ fence))"
    by (simp add: parse_defs)
  then show ?thesis
    by (rule segmentation_lossless)
qed

subsection \<open>A batch that returns\<close>

text \<open>
  Whether or not the pass is cancelled, a batch whose call returns counts its items,
  caches them and publishes the buffer.
\<close>

lemma batch_ignores_cancellation:
  assumes "j \<in> set (inflight st)" and "jobs st ! j = Batch its"
  shows "published (step st (Settle j (Returned t))) =
           published st @ [js_join [newline] (currentRenderedBlocks (step st (Settle j (Returned t))))]"
    and "completedCount (step st (Settle j (Returned t))) = completedCount st + int (length its)"
    and "\<forall>it \<in> set its. chunkCache (step st (Settle j (Returned t))) (raw (block it)) \<noteq> None"
  using assms by (simp_all add: step.simps batch_forEach_cache_puts)

end
